theory Spec2Isabelle
  imports Complex_Main "HOL-Library.Sublist" "HOL-Library.Log_Nat" "HOL-Library.Monad_Syntax"
begin

section \<open>Data model (pkg/models)\<close>

text \<open>
  The structs of package \<open>models\<close>. Go's \<open>int\<close> and \<open>int64\<close> fields are integers
  within the 64-bit range; no arithmetic that could wrap is performed on them by the
  functions below, so they are HOL integers. Strings are byte sequences.
  The nested \<open>User\<close>, \<open>Author\<close> and \<open>Links\<close> structs are carried by their
  display-name and user-name fields only; no function of the pipeline reads them.
\<close>

record Participant =
  DisplayName :: string
  Username :: string
  Role :: string
  Approved :: bool
  Status :: string

record PullRequest =
  ID :: int
  Title :: string
  Description :: string
  State :: string
  Open :: bool
  Closed :: bool
  CreatedDate :: int
  UpdatedDate :: int
  AuthorName :: string
  Participants :: "Participant list"

record Comment =
  CommentID :: int
  Content :: string
  CommentCreatedDate :: int
  CommentUpdatedDate :: int
  CommentUser :: string

section \<open>Strings (package strings)\<close>

text \<open>
  \<open>strings.ToLower\<close>: an ASCII-only string has its bytes \<open>A..Z\<close> moved to
  \<open>a..z\<close>; any other string goes through \<open>Map(unicode.ToLower, s)\<close>, which is the
  parameter \<open>unicodeLower\<close> here (the Unicode case tables are not part of this
  repository).
\<close>

definition isUpperASCII :: "char \<Rightarrow> bool" where
  "isUpperASCII c = (65 \<le> (of_char c :: nat) \<and> (of_char c :: nat) \<le> 90)"

definition lowerASCII :: "char \<Rightarrow> char" where
  "lowerASCII c = (if isUpperASCII c then char_of ((of_char c :: nat) + 32) else c)"

definition ToLower :: "(string \<Rightarrow> string) \<Rightarrow> string \<Rightarrow> string" where
  "ToLower unicodeLower s =
     (if list_all (\<lambda>c. (of_char c :: nat) < 128) s then map lowerASCII s
      else unicodeLower s)"

text \<open>\<open>strings.HasPrefix\<close>, \<open>strings.Index\<close> (first position of \<open>substr\<close> in \<open>s\<close>,
  or \<open>-1\<close>) and \<open>strings.Contains\<close>.\<close>

fun HasPrefix :: "string \<Rightarrow> string \<Rightarrow> bool" where
  "HasPrefix s [] = True"
| "HasPrefix [] (p # ps) = False"
| "HasPrefix (c # s) (p # ps) = (c = p \<and> HasPrefix s ps)"

fun Index :: "string \<Rightarrow> string \<Rightarrow> int" where
  "Index [] substr = (if substr = [] then 0 else -1)"
| "Index (c # s) substr =
     (if HasPrefix (c # s) substr then 0
      else (let i = Index s substr in if i < 0 then -1 else i + 1))"

definition Contains :: "string \<Rightarrow> string \<Rightarrow> bool" where
  "Contains s substr = (Index s substr \<ge> 0)"

section \<open>Keyword filter and approval evaluator (internal/bitbucket)\<close>

text \<open>\<open>containsIgnoreKeyword\<close>: the loop over the keywords returns at the first hit.\<close>

fun containsIgnoreKeyword_loop :: "(string \<Rightarrow> string) \<Rightarrow> string \<Rightarrow> string list \<Rightarrow> bool" where
  "containsIgnoreKeyword_loop ul titleLower [] = False"
| "containsIgnoreKeyword_loop ul titleLower (kw # kws) =
     (if Contains titleLower (ToLower ul kw) then True
      else containsIgnoreKeyword_loop ul titleLower kws)"

definition containsIgnoreKeyword :: "(string \<Rightarrow> string) \<Rightarrow> string \<Rightarrow> string list \<Rightarrow> bool" where
  "containsIgnoreKeyword ul title keywords =
     containsIgnoreKeyword_loop ul (ToLower ul title) keywords"

text \<open>\<open>FilterPRs\<close>: the loop appends every pull request that is not skipped to
  \<open>filtered\<close>.\<close>

fun FilterPRs_loop ::
  "(string \<Rightarrow> string) \<Rightarrow> string list \<Rightarrow> PullRequest list \<Rightarrow> PullRequest list \<Rightarrow> PullRequest list" where
  "FilterPRs_loop ul ignoreKeywords filtered [] = filtered"
| "FilterPRs_loop ul ignoreKeywords filtered (pr # prs) =
     (if containsIgnoreKeyword ul (Title pr) ignoreKeywords
      then FilterPRs_loop ul ignoreKeywords filtered prs
      else FilterPRs_loop ul ignoreKeywords (filtered @ [pr]) prs)"

definition FilterPRs :: "(string \<Rightarrow> string) \<Rightarrow> PullRequest list \<Rightarrow> string list \<Rightarrow> PullRequest list" where
  "FilterPRs ul prs ignoreKeywords = FilterPRs_loop ul ignoreKeywords [] prs"

text \<open>\<open>IsPRApproved\<close>: false at the first reviewer that has not approved.\<close>

fun IsPRApproved :: "Participant list \<Rightarrow> bool" where
  "IsPRApproved [] = True"
| "IsPRApproved (p # ps) =
     (if Role p = ''REVIEWER'' \<and> \<not> Approved p then False else IsPRApproved ps)"

text \<open>\<open>CountApprovals\<close>: the pair \<open>(approved, total)\<close> over the reviewers.\<close>

fun CountApprovals_loop :: "int \<times> int \<Rightarrow> Participant list \<Rightarrow> int \<times> int" where
  "CountApprovals_loop (approvedN, totalN) [] = (approvedN, totalN)"
| "CountApprovals_loop (approvedN, totalN) (p # ps) =
     (if Role p = ''REVIEWER''
      then CountApprovals_loop (if Approved p then approvedN + 1 else approvedN, totalN + 1) ps
      else CountApprovals_loop (approvedN, totalN) ps)"

definition CountApprovals :: "Participant list \<Rightarrow> int \<times> int" where
  "CountApprovals participants = CountApprovals_loop (0, 0) participants"

section \<open>Instants and durations (package time)\<close>

text \<open>
  Go's \<open>/\<close> and \<open>%\<close> on integers truncate towards zero.
\<close>

definition go_quo :: "int \<Rightarrow> int \<Rightarrow> int" where
  "go_quo a b = sgn a * sgn b * (\<bar>a\<bar> div \<bar>b\<bar>)"

definition go_rem :: "int \<Rightarrow> int \<Rightarrow> int" where
  "go_rem a b = a - b * go_quo a b"

text \<open>
  A \<open>time.Time\<close> that carries no monotonic clock reading is determined, for every
  operation used here, by the instant it denotes. The instant is counted in
  nanoseconds since 1 January of year 1, 00:00:00 UTC: this is the origin of the
  package's own representation, and the zero \<open>Time\<close> is the instant 0. All times
  of the program but \<open>time.Now()\<close> come from \<open>UnixMilli\<close>, \<open>Parse\<close> or the
  checkpoint file and have no monotonic reading, so \<open>Sub\<close> and \<open>Since\<close> compare
  wall-clock instants. A \<open>Duration\<close> is a 64-bit count of nanoseconds.
\<close>

type_synonym Time = int
type_synonym Duration = int

definition Millisecond :: Duration where "Millisecond = 1000000"
definition Second :: Duration where "Second = 1000000000"
definition Hour :: Duration where "Hour = 3600000000000"

definition minDuration :: Duration where "minDuration = - (2 ^ 63)"
definition maxDuration :: Duration where "maxDuration = 2 ^ 63 - 1"

text \<open>Seconds from 1 January of year 1 to the Unix epoch.\<close>

definition unixToInternal :: int where "unixToInternal = 62135596800"

definition IsZero :: "Time \<Rightarrow> bool" where
  "IsZero t = (t = 0)"

definition After :: "Time \<Rightarrow> Time \<Rightarrow> bool" where
  "After t u = (t > u)"

text \<open>\<open>time.Unix(sec, nsec)\<close> and \<open>time.UnixMilli(msec) =
  Unix(msec/1e3, (msec%1e3)*1e6)\<close>.\<close>

definition Unix :: "int \<Rightarrow> int \<Rightarrow> Time" where
  "Unix sec nsec = (sec + unixToInternal) * Second + nsec"

definition UnixMilli :: "int \<Rightarrow> Time" where
  "UnixMilli msec = Unix (go_quo msec 1000) (go_rem msec 1000 * 1000000)"

definition unixSec :: "Time \<Rightarrow> int" where
  "unixSec t = t div Second - unixToInternal"

text \<open>\<open>t.Sub(u)\<close>: the difference, or the smallest or largest \<open>Duration\<close> when the
  difference does not fit. \<open>time.Since(u)\<close> is \<open>time.Now().Sub(u)\<close>; the clock
  reading is the argument \<open>now\<close>.\<close>

definition Sub :: "Time \<Rightarrow> Time \<Rightarrow> Duration" where
  "Sub t u =
     (let d = t - u
      in if d < minDuration then minDuration
         else if d > maxDuration then maxDuration else d)"

definition Since :: "Time \<Rightarrow> Time \<Rightarrow> Duration" where
  "Since now u = Sub now u"

subsection \<open>Calendar\<close>

definition isLeap :: "int \<Rightarrow> bool" where
  "isLeap year = (go_rem year 4 = 0 \<and> (go_rem year 100 \<noteq> 0 \<or> go_rem year 400 = 0))"

definition daysBefore :: "int list" where
  "daysBefore = [0, 31, 59, 90, 120, 151, 181, 212, 243, 273, 304, 334, 365]"

definition daysIn :: "int \<Rightarrow> int \<Rightarrow> int" where
  "daysIn m year =
     (if m = 2 \<and> isLeap year then 29
      else daysBefore ! nat m - daysBefore ! nat (m - 1))"

text \<open>
  The date of a day number, the days being counted from 1 January of year 1 in the
  proleptic Gregorian calendar: 400-year, 100-year, 4-year and 1-year cycles are cut
  off in turn, as the package's \<open>absDate\<close> does; the result is the year and the
  zero-based day of the year.
\<close>

definition yearDay :: "int \<Rightarrow> int \<times> int" where
  "yearDay d =
     (let n400 = d div 146097;
          d1 = d - 146097 * n400;
          q100 = d1 div 36524;
          n100 = q100 - q100 div 4;
          d2 = d1 - 36524 * n100;
          n4 = d2 div 1461;
          d3 = d2 - 1461 * n4;
          q1 = d3 div 365;
          n1 = q1 - q1 div 4;
          yday = d3 - 365 * n1
      in (400 * n400 + 100 * n100 + 4 * n4 + n1 + 1, yday))"

text \<open>Month and day of the month from the day of the year: the month is estimated
  as if every month had 31 days and moved up by one where the estimate is short.\<close>

definition monthDay :: "bool \<Rightarrow> int \<Rightarrow> int \<times> int" where
  "monthDay leap yday =
     (if leap \<and> yday = 31 + 29 - 1 then (2, 29)
      else
        (let day = (if leap \<and> yday > 31 + 29 - 1 then yday - 1 else yday);
             month = day div 31;
             endDay = daysBefore ! nat (month + 1)
         in if day \<ge> endDay then (month + 2, day - endDay + 1)
            else (month + 1, day - daysBefore ! nat month + 1)))"

definition date :: "int \<Rightarrow> int \<times> int \<times> int" where
  "date d =
     (let (year, yday) = yearDay d;
          (month, day) = monthDay (isLeap year) yday
      in (year, month, day))"

text \<open>The day number of a date whose month and day are in range
  (\<open>time.Date\<close> without its normalisation of overflowing fields).\<close>

definition daysSinceEpoch :: "int \<Rightarrow> int" where
  "daysSinceEpoch year =
     (let y = year - 1;
          n400 = y div 400;
          y1 = y - 400 * n400;
          n100 = y1 div 100;
          y2 = y1 - 100 * n100;
          n4 = y2 div 4;
          y3 = y2 - 4 * n4
      in 146097 * n400 + 36524 * n100 + 1461 * n4 + 365 * y3)"

definition Date :: "int \<Rightarrow> int \<Rightarrow> int \<Rightarrow> int \<Rightarrow> int \<Rightarrow> int \<Rightarrow> int \<Rightarrow> Time" where
  "Date year month day hour minute sec nsec =
     (let d = daysSinceEpoch year + daysBefore ! nat (month - 1)
              + (if isLeap year \<and> month \<ge> 3 then 1 else 0) + (day - 1)
      in (d * 86400 + hour * 3600 + minute * 60 + sec) * Second + nsec)"

subsection \<open>The year of a time\<close>

text \<open>\<open>t.Year()\<close> for a time whose location is \<open>loc\<close>.\<close>

definition yearOf :: "(int \<Rightarrow> int) \<Rightarrow> Time \<Rightarrow> int" where
  "yearOf loc t = fst (date ((t div Second + loc (unixSec t)) div 86400))"

subsection \<open>Formatting with the layout RFC3339\<close>

definition digit :: "int \<Rightarrow> char" where
  "digit n = char_of (48 + nat n)"

fun digits :: "nat \<Rightarrow> string" where
  "digits n = (if n < 10 then [digit (int n)] else digits (n div 10) @ [digit (int (n mod 10))])"

declare digits.simps [simp del]

text \<open>\<open>appendInt\<close>: the decimal form of \<open>x\<close>, zero-padded to \<open>width\<close> digits, after
  a minus sign when \<open>x\<close> is negative.\<close>

definition appendInt :: "int \<Rightarrow> nat \<Rightarrow> string" where
  "appendInt x width =
     (let ds = digits (nat \<bar>x\<bar>)
      in (if x < 0 then ''-'' else []) @ replicate (width - length ds) (CHR ''0'') @ ds)"

text \<open>
  \<open>t.Format(time.RFC3339)\<close>. The location of \<open>t\<close> is the argument \<open>loc\<close>, which
  gives the offset east of UTC, in seconds, that is in force at a Unix time (the
  lookup of \<open>time.Local\<close>, which the times made by \<open>UnixMilli\<close> carry).
\<close>

definition formatZone :: "int \<Rightarrow> string" where
  "formatZone offset =
     (if offset = 0 then ''Z''
      else
        (let zone = go_quo offset 60
         in (if zone < 0 then ''-'' else ''+'')
            @ appendInt (go_quo \<bar>zone\<bar> 60) 2 @ '':'' @ appendInt (go_rem \<bar>zone\<bar> 60) 2))"

definition FormatRFC3339 :: "(int \<Rightarrow> int) \<Rightarrow> Time \<Rightarrow> string" where
  "FormatRFC3339 loc t =
     (let offset = loc (unixSec t);
          abs = t div Second + offset;
          (year, month, day) = date (abs div 86400);
          secs = abs mod 86400
      in appendInt year 4 @ ''-'' @ appendInt month 2 @ ''-'' @ appendInt day 2 @ ''T''
         @ appendInt (secs div 3600) 2 @ '':'' @ appendInt (secs mod 3600 div 60) 2 @ '':''
         @ appendInt (secs mod 60) 2 @ formatZone offset)"

subsection \<open>Parsing with the layout RFC3339\<close>

text \<open>A Go \<open>error\<close> value, with its message.\<close>

datatype error = Error string

definition isDigitChar :: "char \<Rightarrow> bool" where
  "isDigitChar c = (48 \<le> (of_char c :: nat) \<and> (of_char c :: nat) \<le> 57)"

definition isDigit :: "string \<Rightarrow> nat \<Rightarrow> bool" where
  "isDigit s i = (i < length s \<and> isDigitChar (s ! i))"

definition digitVal :: "char \<Rightarrow> int" where
  "digitVal c = int (of_char c) - 48"

definition decimal :: "string \<Rightarrow> int" where
  "decimal s = foldl (\<lambda>x c. x * 10 + digitVal c) 0 s"

text \<open>\<open>parseUint\<close> of \<open>parseRFC3339\<close>: an unsigned decimal number within \<open>[lo, hi]\<close>.\<close>

definition parseUint :: "string \<Rightarrow> int \<Rightarrow> int \<Rightarrow> int option" where
  "parseUint s lo hi =
     (if list_all isDigitChar s
      then (let x = decimal s in if x < lo \<or> hi < x then None else Some x)
      else None)"

text \<open>\<open>parseNanoseconds(value, nbytes)\<close> on a separator followed by \<open>nbytes - 1\<close>
  digits: the first nine digits, scaled to nanoseconds.\<close>

definition parseNanoseconds :: "string \<Rightarrow> nat \<Rightarrow> int" where
  "parseNanoseconds v nbytes =
     (let nb = min nbytes 10
      in decimal (take (nb - 1) (drop 1 v)) * 10 ^ (10 - nb))"

text \<open>The fractional second that may follow the seconds field: \<open>seps\<close> are the
  separators accepted. The result is the nanoseconds and the rest of the input.\<close>

definition fraction :: "string \<Rightarrow> string \<Rightarrow> int \<times> string" where
  "fraction seps s =
     (if length s \<ge> 2 \<and> hd s \<in> set seps \<and> isDigit s 1
      then (let n = 1 + length (takeWhile isDigitChar (drop 1 s))
            in (parseNanoseconds s n, drop n s))
      else (0, s))"

text \<open>
  \<open>parseRFC3339\<close>, the strict parser that \<open>time.Parse\<close> tries first for this
  layout: fixed positions, every field within its range.
\<close>

definition parseRFC3339 :: "string \<Rightarrow> Time option" where
  "parseRFC3339 s =
     (if length s < 19 then None
      else do {
        year \<leftarrow> parseUint (take 4 s) 0 9999;
        month \<leftarrow> parseUint (take 2 (drop 5 s)) 1 12;
        day \<leftarrow> parseUint (take 2 (drop 8 s)) 1 (daysIn month year);
        hour \<leftarrow> parseUint (take 2 (drop 11 s)) 0 23;
        minute \<leftarrow> parseUint (take 2 (drop 14 s)) 0 59;
        sec \<leftarrow> parseUint (take 2 (drop 17 s)) 0 59;
        if \<not> (s ! 4 = CHR ''-'' \<and> s ! 7 = CHR ''-'' \<and> s ! 10 = CHR ''T''
                \<and> s ! 13 = CHR '':'' \<and> s ! 16 = CHR '':'') then None
        else
          (let (nsec, z) = fraction ''.'' (drop 19 s);
               t = Date year month day hour minute sec nsec
           in if z = ''Z'' then Some t
              else if length z \<noteq> 6 then None
              else do {
                hr \<leftarrow> parseUint (take 2 (drop 1 z)) 0 23;
                mm \<leftarrow> parseUint (take 2 (drop 4 z)) 0 59;
                if \<not> ((z ! 0 = CHR ''-'' \<or> z ! 0 = CHR ''+'') \<and> z ! 3 = CHR '':'') then None
                else
                  (let zoneOffset = (hr * 60 + mm) * 60;
                       zoneOffset = (if z ! 0 = CHR ''-'' then - zoneOffset else zoneOffset)
                   in Some (t - zoneOffset * Second))
              })
      })"

text \<open>
  The layout-driven parser that \<open>time.Parse\<close> falls back to, followed along the
  layout \<open>2006-01-02T15:04:05Z07:00\<close>. \<open>getnum\<close> reads a number of two digits, or
  of one digit where the width is not fixed; \<open>skip\<close> reads a literal character.
  Unlike the strict parser it accepts an hour of one digit, a comma before the
  fractional second, a zone hour of 24 and a zone minute of 60.
\<close>

definition getnum :: "string \<Rightarrow> bool \<Rightarrow> (int \<times> string) option" where
  "getnum s fixed =
     (if \<not> isDigit s 0 then None
      else if \<not> isDigit s 1 then (if fixed then None else Some (digitVal (s ! 0), drop 1 s))
      else Some (digitVal (s ! 0) * 10 + digitVal (s ! 1), drop 2 s))"

definition skip :: "string \<Rightarrow> char \<Rightarrow> string option" where
  "skip v c = (case v of [] \<Rightarrow> None | x # rest \<Rightarrow> if x = c then Some rest else None)"

definition parseZone :: "string \<Rightarrow> (int \<times> string) option" where
  "parseZone v =
     (if length v \<ge> 1 \<and> v ! 0 = CHR ''Z'' then Some (0, drop 1 v)
      else if length v < 6 then None
      else if v ! 3 \<noteq> CHR '':'' then None
      else do {
        (hr, r1) \<leftarrow> getnum (take 2 (drop 1 v)) True;
        (mm, r2) \<leftarrow> getnum (take 2 (drop 4 v)) True;
        if hr > 24 \<or> mm > 60 then None
        else if v ! 0 = CHR ''+'' then Some ((hr * 60 + mm) * 60, drop 6 v)
        else if v ! 0 = CHR ''-'' then Some (- ((hr * 60 + mm) * 60), drop 6 v)
        else None
      })"

definition parseLayoutRFC3339 :: "string \<Rightarrow> Time option" where
  "parseLayoutRFC3339 v0 =
     (if length v0 < 4 \<or> \<not> list_all isDigitChar (take 4 v0) then None
      else do {
        let year = decimal (take 4 v0);
        v1 \<leftarrow> skip (drop 4 v0) (CHR ''-'');
        (month, v2) \<leftarrow> getnum v1 True;
        if month \<le> 0 \<or> 12 < month then None
        else do {
          v3 \<leftarrow> skip v2 (CHR ''-'');
          (day, v4) \<leftarrow> getnum v3 True;
          v5 \<leftarrow> skip v4 (CHR ''T'');
          (hour, v6) \<leftarrow> getnum v5 False;
          if 24 \<le> hour then None
          else do {
            v7 \<leftarrow> skip v6 (CHR '':'');
            (minute, v8) \<leftarrow> getnum v7 True;
            if 60 \<le> minute then None
            else do {
              v9 \<leftarrow> skip v8 (CHR '':'');
              (sec, v10) \<leftarrow> getnum v9 True;
              if 60 \<le> sec then None
              else do {
                let (nsec, v11) = fraction ''.,'' v10;
                (zoneOffset, v12) \<leftarrow> parseZone v11;
                if v12 \<noteq> [] then None
                else if day < 1 \<or> day > daysIn month year then None
                else Some (Date year month day hour minute sec nsec - zoneOffset * Second)
              }
            }
          }
        }
      })"

text \<open>\<open>time.Parse(time.RFC3339, value)\<close>.\<close>

definition Parse_RFC3339 :: "string \<Rightarrow> error + Time" where
  "Parse_RFC3339 v =
     (case parseRFC3339 v of
        Some t \<Rightarrow> Inr t
      | None \<Rightarrow>
          (case parseLayoutRFC3339 v of
             Some t \<Rightarrow> Inr t
           | None \<Rightarrow> Inl (Error (''parsing time '' @ v))))"

subsection \<open>Durations in hours (float64)\<close>

text \<open>
  \<open>float64\<close> arithmetic is IEEE 754 binary64 with rounding to nearest, ties to even:
  every operation returns the rounding of the exact result. \<open>float64 x\<close> is that
  rounding of a rational \<open>x\<close> to a significand of 53 bits. The exponent range is not
  bounded here: the values met below are 0 or lie between \<open>2\<^sup>-\<^sup>4\<^sup>2\<close> and
  \<open>2\<^sup>2\<^sup>2\<close> in magnitude, far from overflow and from the subnormal numbers.
\<close>

definition pow2 :: "int \<Rightarrow> rat" where
  "pow2 e = (if e \<ge> 0 then 2 ^ nat e else 1 / 2 ^ nat (- e))"

definition roundEven :: "rat \<Rightarrow> int" where
  "roundEven x =
     (let f = \<lfloor>x\<rfloor>; r = x - of_int f
      in if r < 1 / 2 then f else if r > 1 / 2 then f + 1
         else if even f then f else f + 1)"

text \<open>\<open>ilog2 x\<close> is the integer \<open>e\<close> with \<open>2\<^sup>e \<le> |x| < 2\<^sup>e\<^sup>+\<^sup>1\<close>, for \<open>x \<noteq> 0\<close>.\<close>

definition ilog2 :: "rat \<Rightarrow> int" where
  "ilog2 x =
     (let (p, q) = quotient_of x; e = bitlen \<bar>p\<bar> - bitlen q
      in if \<bar>x\<bar> < pow2 e then e - 1 else e)"

definition float64 :: "rat \<Rightarrow> rat" where
  "float64 x =
     (if x = 0 then 0
      else (let e = ilog2 x - 52 in of_int (roundEven (x / pow2 e)) * pow2 e))"

text \<open>\<open>d.Hours()\<close> is \<open>float64(d / Hour) + float64(d % Hour)/(60*60*1e9)\<close>.\<close>

definition Hours :: "Duration \<Rightarrow> rat" where
  "Hours d =
     (let hour = go_quo d Hour; nsec = go_rem d Hour
      in float64 (float64 (of_int hour) + float64 (float64 (of_int nsec) / 3600000000000)))"

text \<open>The conversion \<open>int(x)\<close> of a float discards the fraction (truncation towards
  zero).\<close>

definition go_int :: "rat \<Rightarrow> int" where
  "go_int x = (if x \<ge> 0 then \<lfloor>x\<rfloor> else \<lceil>x\<rceil>)"

text \<open>\<open>Duration(n) * time.Hour\<close> and the like are 64-bit products: they wrap around.\<close>

definition wrap64 :: "int \<Rightarrow> int" where
  "wrap64 x = (x + 2 ^ 63) mod 2 ^ 64 - 2 ^ 63"

section \<open>Staleness classifier (cmd/main.go)\<close>

text \<open>
  \<open>daysWithoutActivity := int(time.Since(lastTime).Hours() / 24)\<close> and the test
  \<open>daysWithoutActivity >= cfg.PRFilter.StaleAfterDays\<close> of \<open>run\<close>; \<open>now\<close> is the
  clock reading taken by \<open>time.Since\<close>.
\<close>

definition daysWithoutActivity :: "Time \<Rightarrow> Time \<Rightarrow> int" where
  "daysWithoutActivity now lastTime = go_int (float64 (Hours (Since now lastTime) / 24))"

definition isStale :: "Time \<Rightarrow> Time \<Rightarrow> int \<Rightarrow> bool" where
  "isStale now lastTime staleAfterDays = (daysWithoutActivity now lastTime \<ge> staleAfterDays)"

section \<open>Activity resolver (internal/bitbucket)\<close>

text \<open>The loop of \<open>GetLastActivity\<close> over the comments, \<open>last\<close> being the running
  maximum.\<close>

fun GetLastActivity_loop :: "Time \<Rightarrow> Comment list \<Rightarrow> Time" where
  "GetLastActivity_loop last' [] = last'"
| "GetLastActivity_loop last' (c # cs) =
     (let commentTime = UnixMilli (CommentUpdatedDate c)
      in if After commentTime last' then GetLastActivity_loop commentTime cs
         else GetLastActivity_loop last' cs)"

definition GetLastActivity :: "(int \<Rightarrow> int) \<Rightarrow> PullRequest \<Rightarrow> Comment list \<Rightarrow> string" where
  "GetLastActivity loc pr comments =
     (if UpdatedDate pr = 0 \<and> CreatedDate pr = 0 then ''''
      else
        (let lastUpdated = UnixMilli (UpdatedDate pr);
             lastCreated = UnixMilli (CreatedDate pr);
             last0 = (if IsZero lastUpdated then lastCreated else lastUpdated);
             last = GetLastActivity_loop last0 comments
         in if IsZero last then '''' else FormatRFC3339 loc last))"

section \<open>The monitoring loop (cmd/main.go)\<close>

subsection \<open>Configuration, collaborators and the state of the world\<close>

text \<open>The fields of \<open>config.Config\<close> that \<open>run\<close> reads.\<close>

record Config =
  Repositories :: "string list"
  IgnoreKeywords :: "string list"
  StaleAfterDays :: int
  IntervalHours :: int
  TeamsWebhookURL :: string

text \<open>
  What \<open>run\<close> calls outside the process is given by an environment: the answers of
  the Bitbucket client for a repository and a pull request id, the results of the
  notifiers, the successive readings of the clock, whether the context is found
  cancelled at each \<open>select\<close>, and what each write of the checkpoint file does.
  The answers of the client are functions of their arguments: one cycle asks each
  question once per pull request it meets.
\<close>

record Env =
  unicodeLower :: "string \<Rightarrow> string"
  Local :: "int \<Rightarrow> int"
  ListOpenPRs :: "string \<Rightarrow> error + PullRequest list"
  GetParticipants :: "string \<Rightarrow> int \<Rightarrow> error + Participant list"
  GetComments :: "string \<Rightarrow> int \<Rightarrow> error + Comment list"
  Notify :: "string \<Rightarrow> PullRequest list \<Rightarrow> (string \<rightharpoonup> PullRequest list)
               \<Rightarrow> (int \<rightharpoonup> Participant list) \<Rightarrow> int \<Rightarrow> error option"
  clock :: "nat \<Rightarrow> Time"
  cancelled :: "nat \<Rightarrow> bool"
  writeFails :: "nat \<Rightarrow> bool"

text \<open>
  The checkpoint file \<open>tmp/last_notification.txt\<close>: it cannot be read, or its
  content is the JSON form of a time, or its content is not the JSON form of a time.
\<close>

datatype checkpoint_file = Unreadable | Holds Time | Malformed

text \<open>The calls that leave the process, in the order they are made.\<close>

datatype event =
    EvGetCheckpoint
  | EvSetCheckpoint Time
  | EvListOpenPRs string
  | EvGetParticipants string int
  | EvGetComments string int
  | EvNotify string
  | EvWait

record World =
  checkpoint :: checkpoint_file
  nowCount :: nat
  selectCount :: nat
  writeCount :: nat
  trace :: "event list"

definition emit :: "event \<Rightarrow> World \<Rightarrow> World" where
  "emit e w = w\<lparr>trace := trace w @ [e]\<rparr>"

definition time_Now :: "Env \<Rightarrow> World \<Rightarrow> Time \<times> World" where
  "time_Now env w = (clock env (nowCount w), w\<lparr>nowCount := Suc (nowCount w)\<rparr>)"

definition ctx_Done :: "Env \<Rightarrow> World \<Rightarrow> bool \<times> World" where
  "ctx_Done env w = (cancelled env (selectCount w), w\<lparr>selectCount := Suc (selectCount w)\<rparr>)"

subsection \<open>The checkpoint store (pkg/models)\<close>

text \<open>\<open>GetLastNotificationTime\<close>: the zero time when the file cannot be read, an
  error when its content does not parse.\<close>

definition GetLastNotificationTime :: "World \<Rightarrow> (error + Time) \<times> World" where
  "GetLastNotificationTime w =
     (case checkpoint w of
        Unreadable \<Rightarrow> (Inr 0, emit EvGetCheckpoint w)
      | Malformed \<Rightarrow> (Inl (Error ''error parsing timestamp''), emit EvGetCheckpoint w)
      | Holds t \<Rightarrow> (Inr t, emit EvGetCheckpoint w))"

text \<open>\<open>SetLastNotificationTime\<close>: \<open>json.Marshal\<close> refuses a time whose year is
  outside 0..9999; a write that fails leaves an error, and the file is then taken to
  be as it was.\<close>

definition SetLastNotificationTime :: "Env \<Rightarrow> Time \<Rightarrow> World \<Rightarrow> error option \<times> World" where
  "SetLastNotificationTime env t w =
     (let w1 = emit (EvSetCheckpoint t) w
      in if yearOf (Local env) t < 0 \<or> yearOf (Local env) t \<ge> 10000
         then (Some (Error ''error marshaling timestamp''), w1)
         else
           (let w2 = w1\<lparr>writeCount := Suc (writeCount w1)\<rparr>
            in if writeFails env (writeCount w1)
               then (Some (Error ''error writing timestamp file''), w2)
               else (None, w2\<lparr>checkpoint := Holds t\<rparr>)))"

subsection \<open>One check cycle\<close>

text \<open>The three accumulators of a cycle.\<close>

record Batch =
  allPRsToNotify :: "PullRequest list"
  repoPRsToNotify :: "string \<rightharpoonup> PullRequest list"
  prParticipants :: "int \<rightharpoonup> Participant list"

definition emptyBatch :: Batch where
  "emptyBatch = \<lparr>allPRsToNotify = [], repoPRsToNotify = Map.empty, prParticipants = Map.empty\<rparr>"

text \<open>\<open>append(repoPRsToNotify[repo], pr)\<close>: a missing key reads as the empty slice.\<close>

definition appendRepo :: "(string \<rightharpoonup> PullRequest list) \<Rightarrow> string \<Rightarrow> PullRequest \<Rightarrow> (string \<rightharpoonup> PullRequest list)" where
  "appendRepo m repo pr = m(repo \<mapsto> (case m repo of None \<Rightarrow> [] | Some prs \<Rightarrow> prs) @ [pr])"

text \<open>The body of the loop over the filtered pull requests of a repository; every
  \<open>continue\<close> is a branch that returns the accumulators as they are.\<close>

definition processPR :: "Env \<Rightarrow> Config \<Rightarrow> string \<Rightarrow> PullRequest \<Rightarrow> Batch \<times> World \<Rightarrow> Batch \<times> World" where
  "processPR env cfg repo pr bw =
     (let (b, w) = bw;
          w1 = emit (EvGetParticipants repo (ID pr)) w
      in case GetParticipants env repo (ID pr) of
           Inl err \<Rightarrow> (b, w1)
         | Inr participants \<Rightarrow>
             (let b1 = b\<lparr>prParticipants := (prParticipants b)(ID pr \<mapsto> participants)\<rparr>
              in if IsPRApproved participants then (b1, w1)
                 else
                   (let w2 = emit (EvGetComments repo (ID pr)) w1
                    in case GetComments env repo (ID pr) of
                         Inl err \<Rightarrow> (b1, w2)
                       | Inr comments \<Rightarrow>
                           (let lastActivity = GetLastActivity (Local env) pr comments
                            in if lastActivity = '''' then (b1, w2)
                               else
                                 (case Parse_RFC3339 lastActivity of
                                    Inl err \<Rightarrow> (b1, w2)
                                  | Inr lastTime \<Rightarrow>
                                      (let (now, w3) = time_Now env w2
                                       in if daysWithoutActivity now lastTime \<ge> StaleAfterDays cfg
                                          then (b1\<lparr>allPRsToNotify := allPRsToNotify b1 @ [pr],
                                                    repoPRsToNotify :=
                                                      appendRepo (repoPRsToNotify b1) repo pr\<rparr>, w3)
                                          else (b1, w3)))))))"

fun processPRs :: "Env \<Rightarrow> Config \<Rightarrow> string \<Rightarrow> PullRequest list \<Rightarrow> Batch \<times> World \<Rightarrow> Batch \<times> World" where
  "processPRs env cfg repo [] bw = bw"
| "processPRs env cfg repo (pr # prs) bw = processPRs env cfg repo prs (processPR env cfg repo pr bw)"

text \<open>The body of the loop over the repositories.\<close>

definition processRepo :: "Env \<Rightarrow> Config \<Rightarrow> string \<Rightarrow> Batch \<times> World \<Rightarrow> Batch \<times> World" where
  "processRepo env cfg repo bw =
     (let (b, w) = bw;
          w1 = emit (EvListOpenPRs repo) w
      in case ListOpenPRs env repo of
           Inl err \<Rightarrow> (b, w1)
         | Inr prs \<Rightarrow>
             (let filtered = FilterPRs (unicodeLower env) prs (IgnoreKeywords cfg)
              in processPRs env cfg repo filtered (b, w1)))"

fun processRepos :: "Env \<Rightarrow> Config \<Rightarrow> string list \<Rightarrow> Batch \<times> World \<Rightarrow> Batch \<times> World" where
  "processRepos env cfg [] bw = bw"
| "processRepos env cfg (repo # repos) bw = processRepos env cfg repos (processRepo env cfg repo bw)"

definition cycle :: "Env \<Rightarrow> Config \<Rightarrow> World \<Rightarrow> Batch \<times> World" where
  "cycle env cfg w = processRepos env cfg (Repositories cfg) (emptyBatch, w)"

subsection \<open>Dispatch, checkpoint update and wait\<close>

text \<open>The notifiers of \<open>run\<close>: e-mail always, Teams when a webhook is configured.\<close>

definition notifiers :: "Config \<Rightarrow> string list" where
  "notifiers cfg = [''email''] @ (if TeamsWebhookURL cfg \<noteq> '''' then [''teams''] else [])"

text \<open>The loop over the notifiers: an error of \<open>Notify\<close> is logged, nothing else.\<close>

fun dispatch :: "Env \<Rightarrow> Config \<Rightarrow> Batch \<Rightarrow> string list \<Rightarrow> World \<Rightarrow> World" where
  "dispatch env cfg b [] w = w"
| "dispatch env cfg b (n # ns) w =
     (case Notify env n (allPRsToNotify b) (repoPRsToNotify b) (prParticipants b)
             (StaleAfterDays cfg) of
        Some err \<Rightarrow> dispatch env cfg b ns (emit (EvNotify n) w)
      | None \<Rightarrow> dispatch env cfg b ns (emit (EvNotify n) w))"

text \<open>What an iteration of the \<open>for\<close> loop ends with: \<open>run\<close> returns (an error or
  \<open>nil\<close>), or the loop goes round again.\<close>

datatype outcome = Return "error option" | Continue

text \<open>The \<open>select\<close> between \<open>ctx.Done()\<close> and \<open>time.After(checkFreq)\<close>.\<close>

definition wait :: "Env \<Rightarrow> World \<Rightarrow> outcome \<times> World" where
  "wait env w =
     (let (done, w1) = ctx_Done env (emit EvWait w)
      in if done then (Return None, w1) else (Continue, w1))"

text \<open>The part of an iteration after the gate: the cycle, then dispatch and the
  checkpoint update when something is stale, then the wait. An error of
  \<open>SetLastNotificationTime\<close> is logged, nothing else.\<close>

definition notifyAndWait :: "Env \<Rightarrow> Config \<Rightarrow> World \<Rightarrow> outcome \<times> World" where
  "notifyAndWait env cfg w =
     (let (b, w1) = cycle env cfg w
      in if length (allPRsToNotify b) > 0
         then
           (let w2 = dispatch env cfg b (notifiers cfg) w1;
                (now, w3) = time_Now env w2;
                (err, w4) = SetLastNotificationTime env now w3
            in case err of
                 Some e \<Rightarrow> wait env w4
               | None \<Rightarrow> wait env w4)
         else wait env w1)"

text \<open>The gate. \<open>time.Since\<close> is not called when \<open>lastNotified\<close> is the zero time.\<close>

definition interval :: "Config \<Rightarrow> Duration" where
  "interval cfg = wrap64 (IntervalHours cfg * Hour)"

definition gate :: "Env \<Rightarrow> Config \<Rightarrow> Time \<Rightarrow> World \<Rightarrow> bool \<times> World" where
  "gate env cfg lastNotified w =
     (if IsZero lastNotified then (True, w)
      else (let (now, w1) = time_Now env w in (Since now lastNotified \<ge> interval cfg, w1)))"

text \<open>One iteration of the \<open>for\<close> loop of \<open>run\<close>.\<close>

definition iteration :: "Env \<Rightarrow> Config \<Rightarrow> World \<Rightarrow> outcome \<times> World" where
  "iteration env cfg w =
     (let (done, w1) = ctx_Done env w
      in if done then (Return None, w1)
         else
           (case GetLastNotificationTime w1 of
              (Inl err, w2) \<Rightarrow> (Return (Some err), w2)
            | (Inr lastNotified, w2) \<Rightarrow>
                (let (shouldNotify, w3) = gate env cfg lastNotified w2
                 in if \<not> shouldNotify then wait env w3
                    else notifyAndWait env cfg w3)))"

text \<open>
  \<open>run\<close>: the loop goes on until an iteration returns. A run that never returns has
  the value \<open>None\<close>.
\<close>

partial_function (option) run_loop :: "Env \<Rightarrow> Config \<Rightarrow> World \<Rightarrow> (error option \<times> World) option" where
  [code]: "run_loop env cfg w =
     (case iteration env cfg w of
        (Return r, w') \<Rightarrow> Some (r, w')
      | (Continue, w') \<Rightarrow> run_loop env cfg w')"

definition run :: "Env \<Rightarrow> Config \<Rightarrow> World \<Rightarrow> (error option \<times> World) option" where
  "run env cfg w = run_loop env cfg w"

text \<open>The state after \<open>n\<close> iterations that all went round again, if there is one.\<close>

fun afterIterations :: "nat \<Rightarrow> Env \<Rightarrow> Config \<Rightarrow> World \<Rightarrow> World option" where
  "afterIterations 0 env cfg w = Some w"
| "afterIterations (Suc n) env cfg w =
     (case iteration env cfg w of
        (Return r, w') \<Rightarrow> None
      | (Continue, w') \<Rightarrow> afterIterations n env cfg w')"

subsection \<open>A scenario to run the definitions on\<close>

text \<open>
  One repository with three open pull requests, all last updated at Unix time
  1700000000 (14 November 2023): number 1 is titled \<open>[WIP] x\<close>, number 2 is approved
  by its only reviewer, number 3 is not approved. The threshold is 5 days, the
  interval 24 hours, the zone UTC. The clock reads ten days later, one millisecond
  more at every reading. Every write of the checkpoint file fails. The context is
  cancelled from the fourth \<open>select\<close> on.
\<close>

definition scenarioPR :: "int \<Rightarrow> string \<Rightarrow> int \<Rightarrow> int \<Rightarrow> PullRequest" where
  "scenarioPR i title updated created =
     \<lparr>ID = i, Title = title, Description = '''', State = ''OPEN'', Open = True,
      Closed = False, CreatedDate = created, UpdatedDate = updated, AuthorName = ''ann'',
      Participants = []\<rparr>"

definition scenarioReviewer :: "bool \<Rightarrow> Participant" where
  "scenarioReviewer a =
     \<lparr>DisplayName = ''Bob'', Username = ''bob'', Role = ''REVIEWER'', Approved = a,
      Status = (if a then ''APPROVED'' else ''UNAPPROVED'')\<rparr>"

definition scenarioComment :: "int \<Rightarrow> Comment" where
  "scenarioComment updated =
     \<lparr>CommentID = 1, Content = ''ping'', CommentCreatedDate = 0,
      CommentUpdatedDate = updated, CommentUser = ''bob''\<rparr>"

definition scenarioCfg :: Config where
  "scenarioCfg =
     \<lparr>Repositories = [''repo''], IgnoreKeywords = [''WIP'', ''DRAFT''], StaleAfterDays = 5,
      IntervalHours = 24, TeamsWebhookURL = ''''\<rparr>"

definition scenarioUTC :: "int \<Rightarrow> int" where
  "scenarioUTC u = 0"

definition scenarioPRs :: "string \<Rightarrow> error + PullRequest list" where
  "scenarioPRs repo =
     Inr [scenarioPR 1 ''[WIP] x'' 1700000000000 0, scenarioPR 2 ''ready'' 1700000000000 0,
          scenarioPR 3 ''waiting'' 1700000000000 0]"

definition scenarioParticipants :: "string \<Rightarrow> int \<Rightarrow> error + Participant list" where
  "scenarioParticipants repo i = Inr [scenarioReviewer (i = 2)]"

definition scenarioComments :: "string \<Rightarrow> int \<Rightarrow> error + Comment list" where
  "scenarioComments repo i = Inr []"

definition scenarioNotify ::
  "string \<Rightarrow> PullRequest list \<Rightarrow> (string \<rightharpoonup> PullRequest list) \<Rightarrow> (int \<rightharpoonup> Participant list)
     \<Rightarrow> int \<Rightarrow> error option" where
  "scenarioNotify n allPRs repoPRs parts days = None"

definition scenarioClock :: "nat \<Rightarrow> Time" where
  "scenarioClock n = UnixMilli (1700864000000 + int n)"

definition scenarioCancelled :: "nat \<Rightarrow> bool" where
  "scenarioCancelled n = (n \<ge> 3)"

definition scenarioWriteFails :: "nat \<Rightarrow> bool" where
  "scenarioWriteFails n = True"

definition scenarioEnv :: Env where
  "scenarioEnv =
     \<lparr>unicodeLower = id, Local = scenarioUTC, ListOpenPRs = scenarioPRs,
      GetParticipants = scenarioParticipants, GetComments = scenarioComments,
      Notify = scenarioNotify, clock = scenarioClock, cancelled = scenarioCancelled,
      writeFails = scenarioWriteFails\<rparr>"

definition scenarioWorld :: "checkpoint_file \<Rightarrow> World" where
  "scenarioWorld f = \<lparr>checkpoint = f, nowCount = 0, selectCount = 0, writeCount = 0, trace = []\<rparr>"

section \<open>Keyword filter: properties\<close>

lemma HasPrefix_prefix: "HasPrefix s p \<longleftrightarrow> prefix p s"
  by (induction s p rule: HasPrefix.induct) auto

lemma Index_nonneg_iff: "Index s substr \<ge> 0 \<longleftrightarrow> sublist substr s"
proof (induction s)
  case Nil
  then show ?case by simp
next
  case (Cons c s)
  then show ?case
    by (auto simp: Let_def HasPrefix_prefix sublist_Cons_right)
qed

lemma Contains_sublist: "Contains s substr \<longleftrightarrow> sublist substr s"
  by (simp add: Contains_def Index_nonneg_iff)

lemma containsIgnoreKeyword_loop_iff:
  "containsIgnoreKeyword_loop ul t kws \<longleftrightarrow> (\<exists>k \<in> set kws. sublist (ToLower ul k) t)"
  by (induction kws) (auto simp: Contains_sublist)

lemma FilterPRs_loop_filter:
  "FilterPRs_loop ul kws acc prs =
     acc @ filter (\<lambda>pr. \<not> containsIgnoreKeyword ul (Title pr) kws) prs"
  by (induction prs arbitrary: acc) auto

lemma ToLower_Nil: "ToLower ul [] = []"
  by (simp add: ToLower_def)

text \<open>
  Claim C6, as stated, includes "an empty title never matches". The code follows the
  substring rule, and the empty keyword is a substring of every title, the empty one
  included: with the keyword list \<open>[""]\<close> the empty title is disqualified.
\<close>

theorem C6_empty_title_counterexample:
  "containsIgnoreKeyword id [] [[]] = True"
  by (simp add: containsIgnoreKeyword_def ToLower_def Contains_def)

text \<open>
  Claim C6 (amended): for every title \<open>T\<close> and keyword list \<open>K\<close> the keyword filter
  disqualifies \<open>T\<close> if and only if some \<open>k\<close> in \<open>K\<close> has \<open>lowercase(k)\<close> as a
  contiguous substring of \<open>lowercase(T)\<close>; an empty keyword list excludes nothing; an
  empty title is disqualified exactly when some keyword lowercases to the empty string
  (so never by non-empty keywords); and \<open>FilterPRs\<close> keeps, in order, exactly the
  input pull requests whose titles are not disqualified.
\<close>

theorem C6_keyword_filter:
  "(containsIgnoreKeyword ul T K \<longleftrightarrow> (\<exists>k \<in> set K. sublist (ToLower ul k) (ToLower ul T)))
   \<and> containsIgnoreKeyword ul T [] = False
   \<and> FilterPRs ul prs [] = prs
   \<and> (containsIgnoreKeyword ul [] K \<longleftrightarrow> (\<exists>k \<in> set K. ToLower ul k = []))
   \<and> FilterPRs ul prs K = filter (\<lambda>pr. \<not> containsIgnoreKeyword ul (Title pr) K) prs"
proof -
  have iff: "\<And>T. containsIgnoreKeyword ul T K \<longleftrightarrow>
      (\<exists>k \<in> set K. sublist (ToLower ul k) (ToLower ul T))"
    by (simp add: containsIgnoreKeyword_def containsIgnoreKeyword_loop_iff)
  have none: "\<And>T. containsIgnoreKeyword ul T [] = False"
    by (simp add: containsIgnoreKeyword_def)
  have flt: "\<And>K. FilterPRs ul prs K =
      filter (\<lambda>pr. \<not> containsIgnoreKeyword ul (Title pr) K) prs"
    by (simp add: FilterPRs_def FilterPRs_loop_filter)
  have empty: "containsIgnoreKeyword ul [] K \<longleftrightarrow> (\<exists>k \<in> set K. ToLower ul k = [])"
    by (simp add: iff ToLower_Nil)
  have all: "FilterPRs ul prs [] = prs"
    by (simp add: flt none)
  from iff none all empty flt show ?thesis by blast
qed

theorem C6_keyword_filter_witness:
  "containsIgnoreKeyword id ''[WIP] x'' [''draft'', ''wip'']
   \<and> (\<exists>k \<in> set [''draft'', ''wip'']. sublist (ToLower id k) (ToLower id ''[WIP] x''))
   \<and> \<not> containsIgnoreKeyword id [] [''draft'', ''wip'']"
proof -
  have a: "containsIgnoreKeyword id ''[WIP] x'' [''draft'', ''wip'']"
    by code_simp
  have b: "\<not> (\<exists>k \<in> set [''draft'', ''wip'']. ToLower id k = [])"
    by (simp add: ToLower_def)
  from a b C6_keyword_filter [of id "''[WIP] x''" "[''draft'', ''wip'']"]
    C6_keyword_filter [of id "[]" "[''draft'', ''wip'']"]
  show ?thesis by blast
qed

section \<open>Approval evaluator: properties\<close>

text \<open>
  Claim C7: for every participant list \<open>P\<close>, \<open>IsPRApproved P\<close> is true if and only if
  no element of \<open>P\<close> with role \<open>REVIEWER\<close> has \<open>approved = false\<close>; the empty list is
  approved, and the participants with another role never affect the result.
\<close>

theorem C7_IsPRApproved:
  "(IsPRApproved P \<longleftrightarrow> \<not> (\<exists>p \<in> set P. Role p = ''REVIEWER'' \<and> \<not> Approved p))
   \<and> IsPRApproved [] = True
   \<and> IsPRApproved P = IsPRApproved (filter (\<lambda>p. Role p = ''REVIEWER'') P)"
proof -
  have iff: "\<And>Q. IsPRApproved Q \<longleftrightarrow> \<not> (\<exists>p \<in> set Q. Role p = ''REVIEWER'' \<and> \<not> Approved p)"
  proof -
    fix Q show "IsPRApproved Q \<longleftrightarrow> \<not> (\<exists>p \<in> set Q. Role p = ''REVIEWER'' \<and> \<not> Approved p)"
      by (induction Q) auto
  qed
  have "IsPRApproved P = IsPRApproved (filter (\<lambda>p. Role p = ''REVIEWER'') P)"
    unfolding iff by auto
  with iff show ?thesis by simp
qed

theorem C7_IsPRApproved_witness:
  "IsPRApproved
     [\<lparr>DisplayName = ''A'', Username = ''a'', Role = ''REVIEWER'', Approved = True,
        Status = ''APPROVED''\<rparr>,
      \<lparr>DisplayName = ''B'', Username = ''b'', Role = ''AUTHOR'', Approved = False,
        Status = ''UNAPPROVED''\<rparr>]
   \<and> \<not> IsPRApproved
     [\<lparr>DisplayName = ''A'', Username = ''a'', Role = ''REVIEWER'', Approved = False,
        Status = ''UNAPPROVED''\<rparr>]"
  using C7_IsPRApproved
    [of "[\<lparr>DisplayName = ''A'', Username = ''a'', Role = ''REVIEWER'', Approved = True,
            Status = ''APPROVED''\<rparr>,
          \<lparr>DisplayName = ''B'', Username = ''b'', Role = ''AUTHOR'', Approved = False,
            Status = ''UNAPPROVED''\<rparr>]"]
    C7_IsPRApproved
    [of "[\<lparr>DisplayName = ''A'', Username = ''a'', Role = ''REVIEWER'', Approved = False,
            Status = ''UNAPPROVED''\<rparr>]"]
  by simp


section \<open>The cycle: what it touches\<close>

text \<open>A cycle only fetches: between its start and its end the checkpoint file is the
  same, nothing is written or waited for, and every call it makes is a call of the
  Bitbucket client.\<close>

fun isFetch :: "event \<Rightarrow> bool" where
  "isFetch (EvListOpenPRs repo) = True"
| "isFetch (EvGetParticipants repo i) = True"
| "isFetch (EvGetComments repo i) = True"
| "isFetch e = False"

definition fetchesOnly :: "World \<Rightarrow> World \<Rightarrow> bool" where
  "fetchesOnly w w' =
     (checkpoint w' = checkpoint w \<and> selectCount w' = selectCount w
      \<and> writeCount w' = writeCount w
      \<and> (\<exists>evs. trace w' = trace w @ evs \<and> list_all isFetch evs))"

lemma fetchesOnly_refl: "fetchesOnly w w"
  by (simp add: fetchesOnly_def)

lemma fetchesOnly_trans: "fetchesOnly w w1 \<Longrightarrow> fetchesOnly w1 w2 \<Longrightarrow> fetchesOnly w w2"
  by (auto simp: fetchesOnly_def)

lemma fetchesOnly_emit: "isFetch e \<Longrightarrow> fetchesOnly w (emit e w)"
  by (simp add: fetchesOnly_def emit_def)

lemma fetchesOnly_time_Now: "fetchesOnly w (snd (time_Now env w))"
  by (simp add: fetchesOnly_def time_Now_def)

lemma fetchesOnly_processPR: "fetchesOnly w (snd (processPR env cfg repo pr (b, w)))"
proof -
  let ?w1 = "emit (EvGetParticipants repo (ID pr)) w"
  let ?w2 = "emit (EvGetComments repo (ID pr)) ?w1"
  have 1: "fetchesOnly w ?w1" by (simp add: fetchesOnly_emit)
  have 2: "fetchesOnly w ?w2"
    by (rule fetchesOnly_trans [OF 1]) (simp add: fetchesOnly_emit)
  have 3: "fetchesOnly w (snd (time_Now env ?w2))"
    by (rule fetchesOnly_trans [OF 2]) (rule fetchesOnly_time_Now)
  show ?thesis
    using 1 2 3
    by (auto simp: processPR_def Let_def split: sum.splits prod.splits)
qed

lemma fetchesOnly_processPRs: "fetchesOnly w (snd (processPRs env cfg repo prs (b, w)))"
proof (induction prs arbitrary: b w)
  case Nil
  then show ?case by (simp add: fetchesOnly_refl)
next
  case (Cons pr prs)
  obtain b1 w1 where s: "processPR env cfg repo pr (b, w) = (b1, w1)"
    by (cases "processPR env cfg repo pr (b, w)")
  have "fetchesOnly w w1"
    using fetchesOnly_processPR [of w env cfg repo pr b] s by simp
  moreover have "fetchesOnly w1 (snd (processPRs env cfg repo prs (b1, w1)))"
    by (rule Cons.IH)
  ultimately show ?case
    using s by (simp add: fetchesOnly_trans)
qed

lemma fetchesOnly_processRepo: "fetchesOnly w (snd (processRepo env cfg repo (b, w)))"
proof -
  let ?w1 = "emit (EvListOpenPRs repo) w"
  have 1: "fetchesOnly w ?w1" by (simp add: fetchesOnly_emit)
  have 2: "\<And>prs. fetchesOnly w (snd (processPRs env cfg repo prs (b, ?w1)))"
    by (rule fetchesOnly_trans [OF 1]) (rule fetchesOnly_processPRs)
  show ?thesis
    using 1 2 by (auto simp: processRepo_def Let_def split: sum.splits)
qed

lemma fetchesOnly_processRepos: "fetchesOnly w (snd (processRepos env cfg repos (b, w)))"
proof (induction repos arbitrary: b w)
  case Nil
  then show ?case by (simp add: fetchesOnly_refl)
next
  case (Cons repo repos)
  obtain b1 w1 where s: "processRepo env cfg repo (b, w) = (b1, w1)"
    by (cases "processRepo env cfg repo (b, w)")
  have "fetchesOnly w w1"
    using fetchesOnly_processRepo [of w env cfg repo b] s by simp
  moreover have "fetchesOnly w1 (snd (processRepos env cfg repos (b1, w1)))"
    by (rule Cons.IH)
  ultimately show ?case
    using s by (simp add: fetchesOnly_trans)
qed

lemma fetchesOnly_cycle: "fetchesOnly w (snd (cycle env cfg w))"
  by (simp add: cycle_def fetchesOnly_processRepos)

text \<open>The wait step: one \<open>select\<close>, nothing else.\<close>

lemma wait_world:
  "snd (wait env w) = (emit EvWait w)\<lparr>selectCount := Suc (selectCount w)\<rparr>"
  by (simp add: wait_def ctx_Done_def emit_def Let_def)

lemma dispatch_world:
  "checkpoint (dispatch env cfg b ns w) = checkpoint w
   \<and> writeCount (dispatch env cfg b ns w) = writeCount w
   \<and> nowCount (dispatch env cfg b ns w) = nowCount w
   \<and> trace (dispatch env cfg b ns w) = trace w @ map EvNotify ns"
  by (induction ns arbitrary: w) (auto simp: emit_def split: option.splits)

section \<open>Checkpoint update: properties\<close>

text \<open>
  Claim C8: a cycle that produces no stale pull request leaves the checkpoint as it
  was, and \<open>SetLastNotificationTime\<close> is not called: the calls made from the start of
  the cycle to the end of the iteration are fetches followed by the wait. When the
  checkpoint differs after the cycle, dispatch and update, the cycle found at least
  one stale pull request and the checkpoint holds the clock reading taken for the
  update.
\<close>

theorem C8_checkpoint_update:
  assumes c: "cycle env cfg w = (b, w1)"
      and r: "notifyAndWait env cfg w = (out, w')"
  shows "(allPRsToNotify b = [] \<longrightarrow>
            checkpoint w' = checkpoint w
            \<and> (\<exists>evs. trace w' = trace w @ evs @ [EvWait] \<and> list_all isFetch evs))
       \<and> (checkpoint w' \<noteq> checkpoint w \<longrightarrow>
            allPRsToNotify b \<noteq> []
            \<and> checkpoint w' = Holds (clock env (nowCount w1))
            \<and> EvSetCheckpoint (clock env (nowCount w1)) \<in> set (trace w'))"
proof -
  have f: "fetchesOnly w w1"
    using fetchesOnly_cycle [of w env cfg] c by simp
  show ?thesis
  proof (cases "allPRsToNotify b = []")
    case True
    have "w' = snd (wait env w1)"
      using r c True by (simp add: notifyAndWait_def)
    then have w': "w' = (emit EvWait w1)\<lparr>selectCount := Suc (selectCount w1)\<rparr>"
      by (simp add: wait_world)
    from f obtain evs where "trace w1 = trace w @ evs" "list_all isFetch evs"
      and "checkpoint w1 = checkpoint w"
      by (auto simp: fetchesOnly_def)
    then show ?thesis
      using True w' by (auto simp: emit_def)
  next
    case False
    let ?w2 = "dispatch env cfg b (notifiers cfg) w1"
    let ?now = "clock env (nowCount w1)"
    let ?w3 = "?w2\<lparr>nowCount := Suc (nowCount ?w2)\<rparr>"
    obtain err w4 where s: "SetLastNotificationTime env ?now ?w3 = (err, w4)"
      by (cases "SetLastNotificationTime env ?now ?w3")
    have now: "time_Now env ?w2 = (?now, ?w3)"
      by (simp add: time_Now_def dispatch_world)
    have "w' = snd (wait env w4)"
      using r c False now s
      by (auto simp: notifyAndWait_def Let_def split: option.splits)
    then have w': "w' = (emit EvWait w4)\<lparr>selectCount := Suc (selectCount w4)\<rparr>"
      by (simp add: wait_world)
    have cp: "checkpoint ?w3 = checkpoint w"
      using f by (simp add: dispatch_world fetchesOnly_def)
    have "checkpoint w4 = checkpoint w \<or> checkpoint w4 = Holds ?now"
      using s cp by (auto simp: SetLastNotificationTime_def Let_def emit_def split: if_splits)
    moreover have "EvSetCheckpoint ?now \<in> set (trace w4)"
      using s by (auto simp: SetLastNotificationTime_def Let_def emit_def split: if_splits)
    ultimately show ?thesis
      using False w' by (auto simp: emit_def)
  qed
qed


section \<open>The participant map of a cycle: properties\<close>

text \<open>Every entry of the map is a participant list that the client returned for the
  key, asked about one of the repositories \<open>repos\<close>.\<close>

definition fetchedFrom :: "Env \<Rightarrow> string set \<Rightarrow> (int \<rightharpoonup> Participant list) \<Rightarrow> bool" where
  "fetchedFrom env repos m =
     (\<forall>i ps. m i = Some ps \<longrightarrow> (\<exists>repo \<in> repos. GetParticipants env repo i = Inr ps))"

lemma processPR_keeps:
  "i \<in> dom (prParticipants b) \<Longrightarrow>
   i \<in> dom (prParticipants (fst (processPR env cfg repo pr (b, w))))"
  by (auto simp: processPR_def Let_def split: sum.splits prod.splits)

lemma processPR_adds:
  "GetParticipants env repo (ID pr) = Inr ps \<Longrightarrow>
   prParticipants (fst (processPR env cfg repo pr (b, w))) (ID pr) = Some ps"
  by (auto simp: processPR_def Let_def split: sum.splits prod.splits)

lemma processPR_fetchedFrom:
  "fetchedFrom env repos (prParticipants b) \<Longrightarrow> repo \<in> repos \<Longrightarrow>
   fetchedFrom env repos (prParticipants (fst (processPR env cfg repo pr (b, w))))"
  unfolding fetchedFrom_def
  by (auto simp: processPR_def Let_def split: sum.splits prod.splits if_splits)

lemma processPRs_keeps:
  "i \<in> dom (prParticipants b) \<Longrightarrow>
   i \<in> dom (prParticipants (fst (processPRs env cfg repo prs (b, w))))"
proof (induction prs arbitrary: b w)
  case Nil
  then show ?case by simp
next
  case (Cons pr prs)
  obtain b1 w1 where s: "processPR env cfg repo pr (b, w) = (b1, w1)"
    by (cases "processPR env cfg repo pr (b, w)")
  have "i \<in> dom (prParticipants b1)"
    using processPR_keeps [OF Cons.prems, of env cfg repo pr w] s by simp
  then show ?case
    using Cons.IH [of b1 w1] s by simp
qed

lemma processPRs_adds:
  "pr \<in> set prs \<Longrightarrow> GetParticipants env repo (ID pr) = Inr ps \<Longrightarrow>
   ID pr \<in> dom (prParticipants (fst (processPRs env cfg repo prs (b, w))))"
proof (induction prs arbitrary: b w)
  case Nil
  then show ?case by simp
next
  case (Cons p prs)
  obtain b1 w1 where s: "processPR env cfg repo p (b, w) = (b1, w1)"
    by (cases "processPR env cfg repo p (b, w)")
  show ?case
  proof (cases "p = pr")
    case True
    have "prParticipants b1 (ID pr) = Some ps"
      using processPR_adds [OF Cons.prems(2), of cfg b w] s True by simp
    then have "ID pr \<in> dom (prParticipants b1)" by blast
    then show ?thesis
      using processPRs_keeps [of "ID pr" b1 env cfg repo prs w1] s by simp
  next
    case False
    then have "pr \<in> set prs" using Cons.prems(1) by simp
    then show ?thesis
      using Cons.IH [OF _ Cons.prems(2), of b1 w1] s by simp
  qed
qed

lemma processPRs_fetchedFrom:
  "fetchedFrom env repos (prParticipants b) \<Longrightarrow> repo \<in> repos \<Longrightarrow>
   fetchedFrom env repos (prParticipants (fst (processPRs env cfg repo prs (b, w))))"
proof (induction prs arbitrary: b w)
  case Nil
  then show ?case by simp
next
  case (Cons p prs)
  obtain b1 w1 where s: "processPR env cfg repo p (b, w) = (b1, w1)"
    by (cases "processPR env cfg repo p (b, w)")
  have "fetchedFrom env repos (prParticipants b1)"
    using processPR_fetchedFrom [OF Cons.prems, of cfg p w] s by simp
  then show ?case
    using Cons.IH [OF _ Cons.prems(2), of b1 w1] s by simp
qed

lemma processRepo_keeps:
  "i \<in> dom (prParticipants (fst (processRepo env cfg repo (b, w))))"
  if "i \<in> dom (prParticipants b)"
proof (cases "ListOpenPRs env repo")
  case (Inl e)
  then show ?thesis using that by (simp add: processRepo_def)
next
  case (Inr prs)
  then show ?thesis
    using processPRs_keeps [OF that] by (simp add: processRepo_def Let_def)
qed

lemma processRepo_adds:
  "ListOpenPRs env repo = Inr prs \<Longrightarrow>
   pr \<in> set (FilterPRs (unicodeLower env) prs (IgnoreKeywords cfg)) \<Longrightarrow>
   GetParticipants env repo (ID pr) = Inr ps \<Longrightarrow>
   ID pr \<in> dom (prParticipants (fst (processRepo env cfg repo (b, w))))"
  by (simp add: processRepo_def Let_def processPRs_adds)

lemma processRepo_fetchedFrom:
  "fetchedFrom env repos (prParticipants (fst (processRepo env cfg repo (b, w))))"
  if "fetchedFrom env repos (prParticipants b)" and "repo \<in> repos"
proof (cases "ListOpenPRs env repo")
  case (Inl e)
  then show ?thesis using that by (simp add: processRepo_def)
next
  case (Inr prs)
  then show ?thesis
    using processPRs_fetchedFrom [OF that] by (simp add: processRepo_def Let_def)
qed

lemma processRepos_keeps:
  "i \<in> dom (prParticipants b) \<Longrightarrow>
   i \<in> dom (prParticipants (fst (processRepos env cfg rs (b, w))))"
proof (induction rs arbitrary: b w)
  case Nil
  then show ?case by simp
next
  case (Cons r rs)
  obtain b1 w1 where s: "processRepo env cfg r (b, w) = (b1, w1)"
    by (cases "processRepo env cfg r (b, w)")
  have "i \<in> dom (prParticipants b1)"
    using processRepo_keeps [OF Cons.prems, of env cfg r w] s by simp
  then show ?case
    using Cons.IH [of b1 w1] s by simp
qed

lemma processRepos_adds:
  "repo \<in> set rs \<Longrightarrow> ListOpenPRs env repo = Inr prs \<Longrightarrow>
   pr \<in> set (FilterPRs (unicodeLower env) prs (IgnoreKeywords cfg)) \<Longrightarrow>
   GetParticipants env repo (ID pr) = Inr ps \<Longrightarrow>
   ID pr \<in> dom (prParticipants (fst (processRepos env cfg rs (b, w))))"
proof (induction rs arbitrary: b w)
  case Nil
  then show ?case by simp
next
  case (Cons r rs)
  obtain b1 w1 where s: "processRepo env cfg r (b, w) = (b1, w1)"
    by (cases "processRepo env cfg r (b, w)")
  show ?case
  proof (cases "r = repo")
    case True
    have "ID pr \<in> dom (prParticipants b1)"
      using processRepo_adds [OF Cons.prems(2,3,4), of b w] s True by simp
    then show ?thesis
      using processRepos_keeps [of "ID pr" b1 env cfg rs w1] s by simp
  next
    case False
    then have "repo \<in> set rs" using Cons.prems(1) by simp
    then show ?thesis
      using Cons.IH [OF _ Cons.prems(2,3,4), of b1 w1] s by simp
  qed
qed

lemma processRepos_fetchedFrom:
  "fetchedFrom env repos (prParticipants b) \<Longrightarrow> set rs \<subseteq> repos \<Longrightarrow>
   fetchedFrom env repos (prParticipants (fst (processRepos env cfg rs (b, w))))"
proof (induction rs arbitrary: b w)
  case Nil
  then show ?case by simp
next
  case (Cons r rs)
  obtain b1 w1 where s: "processRepo env cfg r (b, w) = (b1, w1)"
    by (cases "processRepo env cfg r (b, w)")
  have "fetchedFrom env repos (prParticipants b1)"
    using processRepo_fetchedFrom [OF Cons.prems(1), of r cfg w] Cons.prems(2) s by simp
  then show ?case
    using Cons.IH [of b1 w1] Cons.prems(2) s by simp
qed

text \<open>
  Claim C9: the map from pull-request id to participant list that a cycle builds,
  which is the map \<open>notifyAndWait\<close> hands to every notifier, has an entry for every
  pull request that survived the keyword filter and whose participants fetch
  succeeded, whatever happened to the pull request afterwards; the entry is a
  participant list that the client returned for that id.
\<close>

theorem C9_participant_map:
  assumes "cycle env cfg w = (b, w')"
      and "repo \<in> set (Repositories cfg)"
      and "ListOpenPRs env repo = Inr prs"
      and "pr \<in> set (FilterPRs (unicodeLower env) prs (IgnoreKeywords cfg))"
      and "GetParticipants env repo (ID pr) = Inr ps"
  shows "\<exists>ps' repo'. prParticipants b (ID pr) = Some ps'
           \<and> repo' \<in> set (Repositories cfg) \<and> GetParticipants env repo' (ID pr) = Inr ps'"
proof -
  have b: "b = fst (processRepos env cfg (Repositories cfg) (emptyBatch, w))"
    using assms(1) by (simp add: cycle_def)
  have "ID pr \<in> dom (prParticipants b)"
    unfolding b by (rule processRepos_adds [OF assms(2,3,4,5)])
  then obtain ps' where 1: "prParticipants b (ID pr) = Some ps'" by blast
  have "fetchedFrom env (set (Repositories cfg)) (prParticipants emptyBatch)"
    by (simp add: fetchedFrom_def emptyBatch_def)
  then have "fetchedFrom env (set (Repositories cfg)) (prParticipants b)"
    unfolding b by (rule processRepos_fetchedFrom) simp
  with 1 show ?thesis
    unfolding fetchedFrom_def by blast
qed


section \<open>The scenario, evaluated\<close>

lemma scenario_activity:
  "GetLastActivity scenarioUTC (scenarioPR 3 ''waiting'' 1700000000000 0) [] =
     ''2023-11-14T22:13:20Z''"
  by code_simp

lemma scenario_parse: "Parse_RFC3339 ''2023-11-14T22:13:20Z'' = Inr 63835596800000000000"
  by code_simp

lemma scenario_days:
  "daysWithoutActivity (scenarioClock 0) 63835596800000000000 = 10"
  "daysWithoutActivity (scenarioClock 2) 63835596800000000000 = 10"
  by code_simp+

lemma scenario_years:
  "yearOf scenarioUTC (scenarioClock (Suc 0)) = 2023"
  "yearOf scenarioUTC (scenarioClock 3) = 2023"
  by code_simp+

lemma scenario_clock:
  "scenarioClock 0 = 63836460800000000000"
  "scenarioClock (Suc 0) = 63836460800001000000"
  "scenarioClock 3 = 63836460800003000000"
  by code_simp+

lemma scenario_interval: "interval scenarioCfg = 86400000000000"
  by code_simp

lemma scenario_filter:
  "FilterPRs id
     [scenarioPR 1 ''[WIP] x'' 1700000000000 0, scenarioPR 2 ''ready'' 1700000000000 0,
      scenarioPR 3 ''waiting'' 1700000000000 0] [''WIP'', ''DRAFT''] =
   [scenarioPR 2 ''ready'' 1700000000000 0, scenarioPR 3 ''waiting'' 1700000000000 0]"
  by code_simp

lemma scenario_ids: "ID (scenarioPR i t u c) = i"
  by (simp add: scenarioPR_def)

lemma scenario_processPR2:
  "processPR scenarioEnv scenarioCfg ''repo'' (scenarioPR 2 ''ready'' 1700000000000 0) (b, w) =
     (b\<lparr>prParticipants := (prParticipants b)(2 \<mapsto> [scenarioReviewer True])\<rparr>,
      emit (EvGetParticipants ''repo'' 2) w)"
  by (simp add: processPR_def scenarioEnv_def scenarioParticipants_def scenario_ids
      scenarioReviewer_def)

lemma scenario_processPR3:
  assumes "nowCount w = 0 \<or> nowCount w = 2"
  shows "processPR scenarioEnv scenarioCfg ''repo''
           (scenarioPR 3 ''waiting'' 1700000000000 0) (b, w) =
     (b\<lparr>prParticipants := (prParticipants b)(3 \<mapsto> [scenarioReviewer False]),
        allPRsToNotify := allPRsToNotify b @ [scenarioPR 3 ''waiting'' 1700000000000 0],
        repoPRsToNotify := appendRepo (repoPRsToNotify b) ''repo''
           (scenarioPR 3 ''waiting'' 1700000000000 0)\<rparr>,
      (emit (EvGetComments ''repo'' 3) (emit (EvGetParticipants ''repo'' 3) w))
        \<lparr>nowCount := Suc (nowCount w)\<rparr>)"
proof -
  have d: "daysWithoutActivity (scenarioClock (nowCount w)) 63835596800000000000 = 10"
    using assms scenario_days by auto
  show ?thesis
    by (simp add: processPR_def scenarioEnv_def scenarioParticipants_def scenario_ids
        scenarioReviewer_def scenarioComments_def scenario_activity scenario_parse d
        time_Now_def emit_def scenarioCfg_def Let_def)
qed

lemma scenario_cycle:
  assumes "nowCount w = 0 \<or> nowCount w = 2"
  shows "cycle scenarioEnv scenarioCfg w =
    (\<lparr>allPRsToNotify = [scenarioPR 3 ''waiting'' 1700000000000 0],
      repoPRsToNotify = [''repo'' \<mapsto> [scenarioPR 3 ''waiting'' 1700000000000 0]],
      prParticipants = [2 \<mapsto> [scenarioReviewer True], 3 \<mapsto> [scenarioReviewer False]]\<rparr>,
     w\<lparr>nowCount := Suc (nowCount w),
        trace := trace w @ [EvListOpenPRs ''repo'', EvGetParticipants ''repo'' 2,
          EvGetParticipants ''repo'' 3, EvGetComments ''repo'' 3]\<rparr>)"
proof -
  let ?w1 = "emit (EvListOpenPRs ''repo'') w"
  let ?w2 = "emit (EvGetParticipants ''repo'' 2) ?w1"
  have n: "nowCount ?w2 = 0 \<or> nowCount ?w2 = 2"
    using assms by (simp add: emit_def)
  have "cycle scenarioEnv scenarioCfg w =
     processPRs scenarioEnv scenarioCfg ''repo''
       [scenarioPR 2 ''ready'' 1700000000000 0, scenarioPR 3 ''waiting'' 1700000000000 0]
       (emptyBatch, ?w1)"
    using scenario_filter
    by (simp add: cycle_def processRepo_def scenarioCfg_def scenarioEnv_def scenarioPRs_def)
  also have "\<dots> = processPR scenarioEnv scenarioCfg ''repo''
       (scenarioPR 3 ''waiting'' 1700000000000 0)
       (emptyBatch\<lparr>prParticipants :=
          (prParticipants emptyBatch)(2 \<mapsto> [scenarioReviewer True])\<rparr>, ?w2)"
    by (simp add: scenario_processPR2)
  finally show ?thesis
    unfolding scenario_processPR3 [OF n]
    by (simp add: emptyBatch_def appendRepo_def emit_def)
qed

text \<open>An iteration of the scenario that starts with no checkpoint file: the cycle
  finds pull request 3, the e-mail goes out, the write of the checkpoint fails, and
  the iteration ends with the wait all the same.\<close>

lemma scenario_iteration:
  assumes "checkpoint w = Unreadable"
      and "selectCount w = 0 \<or> selectCount w = 2"
      and "nowCount w = 0 \<or> nowCount w = 2"
  shows "iteration scenarioEnv scenarioCfg w =
     (if selectCount w = 0 then Continue else Return None,
      w\<lparr>nowCount := Suc (Suc (nowCount w)), selectCount := Suc (Suc (selectCount w)),
        writeCount := Suc (writeCount w),
        trace := trace w @ [EvGetCheckpoint, EvListOpenPRs ''repo'',
          EvGetParticipants ''repo'' 2, EvGetParticipants ''repo'' 3,
          EvGetComments ''repo'' 3, EvNotify ''email'',
          EvSetCheckpoint (scenarioClock (Suc (nowCount w))), EvWait]\<rparr>)"
proof -
  let ?w2 = "w\<lparr>selectCount := Suc (selectCount w), trace := trace w @ [EvGetCheckpoint]\<rparr>"
  have nc: "\<not> cancelled scenarioEnv (selectCount w)"
    using assms(2) by (auto simp: scenarioEnv_def scenarioCancelled_def)
  have n: "nowCount ?w2 = 0 \<or> nowCount ?w2 = 2"
    using assms(3) by simp
  have y: "yearOf scenarioUTC (scenarioClock (Suc (nowCount w))) = 2023"
    using assms(3) scenario_years by auto
  have it: "iteration scenarioEnv scenarioCfg w = notifyAndWait scenarioEnv scenarioCfg ?w2"
    using nc assms(1)
    by (simp add: iteration_def ctx_Done_def GetLastNotificationTime_def emit_def gate_def
        IsZero_def)
  show ?thesis
    unfolding it notifyAndWait_def scenario_cycle [OF n]
    using assms(2) y
    by (auto simp: notifiers_def scenarioCfg_def scenarioEnv_def scenarioNotify_def emit_def
        time_Now_def SetLastNotificationTime_def scenarioWriteFails_def wait_def ctx_Done_def
        scenarioCancelled_def Let_def)
qed

section \<open>The gate: properties\<close>

lemma wrap64_bounds: "minDuration \<le> wrap64 x \<and> wrap64 x \<le> maxDuration"
proof -
  have "0 \<le> (x + 2 ^ 63) mod (2 ^ 64 :: int)" and "(x + 2 ^ 63) mod (2 ^ 64 :: int) < 2 ^ 64"
    by simp_all
  then show ?thesis
    by (simp add: wrap64_def minDuration_def maxDuration_def)
qed

lemma interval_bounds: "minDuration \<le> interval cfg \<and> interval cfg \<le> maxDuration"
  by (simp add: interval_def wrap64_bounds)

lemma wrap64_id: "minDuration \<le> x \<Longrightarrow> x \<le> maxDuration \<Longrightarrow> wrap64 x = x"
  by (simp add: wrap64_def minDuration_def maxDuration_def)

text \<open>The events a world has seen since an earlier one.\<close>

definition newEvents :: "World \<Rightarrow> World \<Rightarrow> event list" where
  "newEvents w w' = drop (length (trace w)) (trace w')"

lemma fetchesOnly_trace: "fetchesOnly w w' \<Longrightarrow> trace w' = trace w @ newEvents w w'"
  by (auto simp: fetchesOnly_def newEvents_def)

lemma newEvents_trans:
  assumes "fetchesOnly w w1" "fetchesOnly w1 w2"
  shows "newEvents w w2 = newEvents w w1 @ newEvents w1 w2"
proof -
  have "trace w2 = trace w @ newEvents w w1 @ newEvents w1 w2"
    using fetchesOnly_trace [OF assms(1)] fetchesOnly_trace [OF assms(2)] by simp
  then show ?thesis
    by (simp add: newEvents_def [of w w2])
qed

text \<open>A cycle asks for the open pull requests of every configured repository.\<close>

lemma processRepo_lists:
  "EvListOpenPRs repo \<in> set (newEvents w (snd (processRepo env cfg repo (b, w))))"
proof -
  let ?w1 = "emit (EvListOpenPRs repo) w"
  have 1: "fetchesOnly w ?w1" by (simp add: fetchesOnly_emit)
  have n1: "newEvents w ?w1 = [EvListOpenPRs repo]"
    by (simp add: newEvents_def emit_def)
  have 2: "fetchesOnly ?w1 (snd (processPRs env cfg repo prs (b, ?w1)))" for prs
    by (rule fetchesOnly_processPRs)
  have "EvListOpenPRs repo \<in> set (newEvents w (snd (processPRs env cfg repo prs (b, ?w1))))"
    for prs
    by (simp add: newEvents_trans [OF 1 2] n1)
  then show ?thesis
    using n1 by (auto simp: processRepo_def Let_def split: sum.splits)
qed

lemma processRepos_lists:
  "repo \<in> set repos \<Longrightarrow>
   EvListOpenPRs repo \<in> set (newEvents w (snd (processRepos env cfg repos (b, w))))"
proof (induction repos arbitrary: b w)
  case Nil
  then show ?case by simp
next
  case (Cons r rs)
  obtain b1 w1 where s: "processRepo env cfg r (b, w) = (b1, w1)"
    by (cases "processRepo env cfg r (b, w)")
  have 1: "fetchesOnly w w1"
    using fetchesOnly_processRepo [of w env cfg r b] s by simp
  have 2: "fetchesOnly w1 (snd (processRepos env cfg rs (b1, w1)))"
    by (rule fetchesOnly_processRepos)
  have t: "newEvents w (snd (processRepos env cfg (r # rs) (b, w))) =
      newEvents w w1 @ newEvents w1 (snd (processRepos env cfg rs (b1, w1)))"
    using newEvents_trans [OF 1 2] s by simp
  show ?case
  proof (cases "r = repo")
    case True
    have "EvListOpenPRs repo \<in> set (newEvents w w1)"
      using processRepo_lists [of repo w env cfg b] s True by simp
    then show ?thesis unfolding t by simp
  next
    case False
    then have "repo \<in> set rs" using Cons.prems by simp
    then have "EvListOpenPRs repo \<in> set (newEvents w1 (snd (processRepos env cfg rs (b1, w1))))"
      by (rule Cons.IH)
    then show ?thesis unfolding t by simp
  qed
qed

lemma cycle_lists:
  "trace (snd (cycle env cfg w)) = trace w @ newEvents w (snd (cycle env cfg w))
   \<and> (\<forall>repo \<in> set (Repositories cfg).
         EvListOpenPRs repo \<in> set (newEvents w (snd (cycle env cfg w))))"
  using fetchesOnly_trace [OF fetchesOnly_cycle [of w env cfg]]
  by (simp add: cycle_def processRepos_lists)

text \<open>After the cycle an iteration only appends to the trace.\<close>

lemma notifyAndWait_trace:
  "\<exists>rest. trace (snd (notifyAndWait env cfg w)) = trace (snd (cycle env cfg w)) @ rest"
proof -
  obtain b w1 where c: "cycle env cfg w = (b, w1)"
    by (cases "cycle env cfg w")
  show ?thesis
  proof (cases "allPRsToNotify b = []")
    case True
    then show ?thesis
      using c by (simp add: notifyAndWait_def wait_world emit_def)
  next
    case False
    let ?w2 = "dispatch env cfg b (notifiers cfg) w1"
    let ?w3 = "?w2\<lparr>nowCount := Suc (nowCount ?w2)\<rparr>"
    let ?now = "clock env (nowCount ?w2)"
    obtain err w4 where st: "SetLastNotificationTime env ?now ?w3 = (err, w4)"
      by (cases "SetLastNotificationTime env ?now ?w3")
    have n: "notifyAndWait env cfg w = wait env w4"
      using c False st
      by (auto simp: notifyAndWait_def time_Now_def Let_def split: option.splits)
    have "trace w4 = trace ?w3 @ [EvSetCheckpoint ?now]"
      using st by (auto simp: SetLastNotificationTime_def Let_def emit_def split: if_splits)
    then have "trace w4 = trace w1 @ map EvNotify (notifiers cfg) @ [EvSetCheckpoint ?now]"
      by (simp add: dispatch_world)
    then show ?thesis
      using c by (simp add: n wait_world emit_def)
  qed
qed

text \<open>An iteration that is not cancelled at its start and reads a checkpoint.\<close>

lemma iteration_gate:
  fixes env :: Env and cfg :: Config and w :: World
  assumes nc: "\<not> cancelled env (selectCount w)"
      and rd: "checkpoint w \<noteq> Malformed"
  defines "lastNotified \<equiv> (case checkpoint w of Holds t \<Rightarrow> t | _ \<Rightarrow> 0)"
  defines "w2 \<equiv> (emit EvGetCheckpoint w)\<lparr>selectCount := Suc (selectCount w)\<rparr>"
  defines "w3 \<equiv> (if IsZero lastNotified then w2 else w2\<lparr>nowCount := Suc (nowCount w)\<rparr>)"
  shows "iteration env cfg w =
      (if IsZero lastNotified \<or> Since (clock env (nowCount w)) lastNotified \<ge> interval cfg
       then notifyAndWait env cfg w3 else wait env w3)"
proof -
  have g: "GetLastNotificationTime (snd (ctx_Done env w)) = (Inr lastNotified, w2)"
    using rd
    by (cases "checkpoint w")
       (simp_all add: GetLastNotificationTime_def ctx_Done_def emit_def lastNotified_def w2_def)
  have gate: "gate env cfg lastNotified w2 =
      (IsZero lastNotified \<or> Since (clock env (nowCount w)) lastNotified \<ge> interval cfg, w3)"
    by (simp add: gate_def time_Now_def w3_def w2_def emit_def)
  show ?thesis
    using nc g gate by (simp add: iteration_def ctx_Done_def)
qed

text \<open>
  Claim C5, as stated, fails where the subtraction of \<open>time.Since\<close> saturates. With
  \<open>interval_hours = 2\<^sup>5\<^sup>0\<close> the product \<open>IntervalHours * time.Hour\<close> wraps around to
  the smallest \<open>Duration\<close>. A checkpoint of \<open>now - interval + 1s\<close> then has
  \<open>now - lastNotified < interval\<close>, but \<open>time.Since\<close> returns the smallest
  \<open>Duration\<close>, the test \<open>>= interval\<close> holds, and the iteration asks for the open
  pull requests of the repository.
\<close>

theorem C5_saturation_counterexample:
  "interval (scenarioCfg\<lparr>IntervalHours := 2 ^ 50\<rparr>) = minDuration
   \<and> (73059832837854775808 :: int)
       = scenarioClock 0 - interval (scenarioCfg\<lparr>IntervalHours := 2 ^ 50\<rparr>) + Second
   \<and> \<not> IsZero 73059832837854775808
   \<and> scenarioClock 0 - 73059832837854775808 < interval (scenarioCfg\<lparr>IntervalHours := 2 ^ 50\<rparr>)
   \<and> EvListOpenPRs ''repo''
       \<in> set (trace (snd (iteration scenarioEnv (scenarioCfg\<lparr>IntervalHours := 2 ^ 50\<rparr>)
                            (scenarioWorld (Holds 73059832837854775808)))))"
proof -
  let ?cfg = "scenarioCfg\<lparr>IntervalHours := 2 ^ 50\<rparr>"
  let ?w = "scenarioWorld (Holds 73059832837854775808)"
  let ?w3 = "(emit EvGetCheckpoint ?w)\<lparr>selectCount := Suc 0, nowCount := Suc 0\<rparr>"
  have i: "interval ?cfg = - 9223372036854775808"
    by (simp add: interval_def scenarioCfg_def wrap64_def Hour_def)
  note i' = i [simplified]
  have sw: "checkpoint ?w = Holds 73059832837854775808" "nowCount ?w = 0"
    "selectCount ?w = 0" "trace ?w = []"
    by (simp_all add: scenarioWorld_def)
  have nc: "\<not> cancelled scenarioEnv (selectCount ?w)"
    by (simp add: scenarioEnv_def scenarioCancelled_def sw)
  have rd: "checkpoint ?w \<noteq> Malformed"
    by (simp add: sw)
  have clk: "clock scenarioEnv 0 = 63836460800000000000"
    by (simp add: scenarioEnv_def scenario_clock)
  have it: "iteration scenarioEnv ?cfg ?w = notifyAndWait scenarioEnv ?cfg ?w3"
    using iteration_gate [OF nc rd, of ?cfg]
    by (simp add: sw clk i i' IsZero_def Since_def Sub_def minDuration_def maxDuration_def)
  have r: "''repo'' \<in> set (Repositories ?cfg)"
    by (simp add: scenarioCfg_def)
  from cycle_lists [of scenarioEnv ?cfg ?w3] r
  have "EvListOpenPRs ''repo'' \<in> set (trace (snd (cycle scenarioEnv ?cfg ?w3)))"
    by (metis Un_iff set_append)
  then have "EvListOpenPRs ''repo'' \<in> set (trace (snd (iteration scenarioEnv ?cfg ?w)))"
    using notifyAndWait_trace [of scenarioEnv ?cfg ?w3] unfolding it by auto
  then show ?thesis
    using i i' by (simp add: scenario_clock minDuration_def Second_def IsZero_def)
qed

text \<open>
  Claim C5, amended. In an iteration that is not cancelled at its start and reads a
  checkpoint \<open>lastNotified\<close> (the zero time when the file is absent), the cycle runs
  if and only if \<open>lastNotified\<close> is the zero time or
  \<open>time.Since(lastNotified) \<ge> interval\<close>, where \<open>time.Since\<close> is the difference
  saturated to the range of a \<open>Duration\<close> and \<open>interval\<close> the 64-bit product
  \<open>IntervalHours * time.Hour\<close>. When it runs, the cycle starts right after the
  checkpoint is read, and it asks for the open pull requests of every configured
  repository; the rest of the iteration comes after it. Otherwise the iteration
  makes no fetch: after reading the checkpoint it only waits. An absent checkpoint
  always proceeds; a checkpoint of \<open>now - interval - 1s\<close> proceeds; a checkpoint of
  \<open>now - interval + 1s\<close> that is not the zero time skips the cycle provided the
  interval is not the smallest \<open>Duration\<close>, which is so whenever \<open>IntervalHours\<close> is
  not negative and the product does not overflow: the interval is then the product.
\<close>

theorem C5_gate:
  fixes env :: Env and cfg :: Config and w :: World
  assumes nc: "\<not> cancelled env (selectCount w)"
      and rd: "checkpoint w \<noteq> Malformed"
  defines "lastNotified \<equiv> (case checkpoint w of Holds t \<Rightarrow> t | _ \<Rightarrow> 0)"
      and "now \<equiv> clock env (nowCount w)"
  defines "proceed \<equiv> IsZero lastNotified \<or> Since now lastNotified \<ge> interval cfg"
      and "w2 \<equiv> (emit EvGetCheckpoint w)\<lparr>selectCount := Suc (selectCount w)\<rparr>"
  defines "w3 \<equiv> (if IsZero lastNotified then w2 else w2\<lparr>nowCount := Suc (nowCount w)\<rparr>)"
  shows "(proceed \<longrightarrow> iteration env cfg w = notifyAndWait env cfg w3
            \<and> (\<exists>evs rest.
                  trace (snd (cycle env cfg w3)) = trace w @ [EvGetCheckpoint] @ evs
                  \<and> trace (snd (iteration env cfg w)) = trace w @ [EvGetCheckpoint] @ evs @ rest
                  \<and> (\<forall>repo \<in> set (Repositories cfg). EvListOpenPRs repo \<in> set evs)))
       \<and> (\<not> proceed \<longrightarrow> iteration env cfg w = wait env w3
             \<and> trace (snd (iteration env cfg w)) = trace w @ [EvGetCheckpoint, EvWait])
       \<and> (checkpoint w = Unreadable \<longrightarrow> proceed)
       \<and> (lastNotified = now - interval cfg + Second \<and> \<not> IsZero lastNotified
             \<and> interval cfg \<noteq> minDuration \<longrightarrow> \<not> proceed)
       \<and> (0 \<le> IntervalHours cfg \<and> IntervalHours cfg * Hour \<le> maxDuration \<longrightarrow>
             interval cfg = IntervalHours cfg * Hour \<and> interval cfg \<noteq> minDuration)
       \<and> (lastNotified = now - interval cfg - Second \<longrightarrow> proceed)"
proof -
  have it: "iteration env cfg w =
      (if \<not> proceed then wait env w3 else notifyAndWait env cfg w3)"
    using iteration_gate [OF nc rd, of cfg]
    by (simp add: proceed_def w3_def w2_def lastNotified_def now_def)
  have tw3: "trace w3 = trace w @ [EvGetCheckpoint]"
    by (simp add: w3_def w2_def emit_def)
  have run: "\<exists>evs rest.
        trace (snd (cycle env cfg w3)) = trace w @ [EvGetCheckpoint] @ evs
        \<and> trace (snd (iteration env cfg w)) = trace w @ [EvGetCheckpoint] @ evs @ rest
        \<and> (\<forall>repo \<in> set (Repositories cfg). EvListOpenPRs repo \<in> set evs)"
    if p: proceed
  proof -
    obtain rest where
      r: "trace (snd (notifyAndWait env cfg w3)) = trace (snd (cycle env cfg w3)) @ rest"
      using notifyAndWait_trace [of env cfg w3] by blast
    let ?evs = "newEvents w3 (snd (cycle env cfg w3))"
    have c: "trace (snd (cycle env cfg w3)) = trace w @ [EvGetCheckpoint] @ ?evs"
      using cycle_lists [of env cfg w3] by (simp add: tw3)
    have "trace (snd (iteration env cfg w)) = trace w @ [EvGetCheckpoint] @ ?evs @ rest"
      using p it r c by simp
    moreover have "\<forall>repo \<in> set (Repositories cfg). EvListOpenPRs repo \<in> set ?evs"
      using cycle_lists [of env cfg w3] by simp
    ultimately show ?thesis
      using c by blast
  qed
  have skip: "\<not> proceed \<Longrightarrow> trace (snd (wait env w3)) = trace w @ [EvGetCheckpoint, EvWait]"
    by (simp add: wait_world w3_def w2_def emit_def)
  have absent: "checkpoint w = Unreadable \<Longrightarrow> proceed"
    by (simp add: proceed_def lastNotified_def IsZero_def)
  have b: "minDuration \<le> interval cfg" "interval cfg \<le> maxDuration"
    using interval_bounds [of cfg] by simp_all
  have early: "\<not> proceed"
    if "lastNotified = now - interval cfg + Second" "\<not> IsZero lastNotified"
       "interval cfg \<noteq> minDuration"
    using that b by (auto simp: proceed_def Since_def Sub_def Let_def Second_def)
  have plain: "interval cfg = IntervalHours cfg * Hour \<and> interval cfg \<noteq> minDuration"
    if "0 \<le> IntervalHours cfg" "IntervalHours cfg * Hour \<le> maxDuration"
  proof -
    have "0 \<le> IntervalHours cfg * Hour"
      using that(1) by (simp add: Hour_def)
    then have "minDuration \<le> IntervalHours cfg * Hour" "IntervalHours cfg * Hour \<noteq> minDuration"
      by (simp_all add: minDuration_def)
    then show ?thesis
      using wrap64_id [OF _ that(2)] by (simp add: interval_def)
  qed
  have late: "proceed" if "lastNotified = now - interval cfg - Second"
    using that b by (auto simp: proceed_def Since_def Sub_def Let_def Second_def)
  from it run skip absent early plain late show ?thesis by auto
qed

text \<open>The theorem in the scenario, the interval being 24 hours: with a checkpoint one
  second less than 24 hours old the iteration only waits; with a checkpoint one
  second more than 24 hours old it asks for the pull requests of the repository.\<close>

theorem C5_gate_witness:
  "trace (snd (iteration scenarioEnv scenarioCfg (scenarioWorld (Holds 63836374401000000000))))
       = [EvGetCheckpoint, EvWait]
   \<and> iteration scenarioEnv scenarioCfg (scenarioWorld (Holds 63836374399000000000)) =
     notifyAndWait scenarioEnv scenarioCfg
       ((emit EvGetCheckpoint (scenarioWorld (Holds 63836374399000000000)))
          \<lparr>selectCount := Suc 0, nowCount := Suc 0\<rparr>)
   \<and> (\<exists>evs rest.
         trace (snd (iteration scenarioEnv scenarioCfg
                       (scenarioWorld (Holds 63836374399000000000))))
           = [EvGetCheckpoint] @ evs @ rest
         \<and> EvListOpenPRs ''repo'' \<in> set evs)
   \<and> interval scenarioCfg = 24 * Hour"
proof -
  have sw: "checkpoint (scenarioWorld f) = f" "nowCount (scenarioWorld f) = 0"
    "selectCount (scenarioWorld f) = 0" "trace (scenarioWorld f) = []" for f
    by (simp_all add: scenarioWorld_def)
  have nc: "\<not> cancelled scenarioEnv (selectCount (scenarioWorld f))" for f
    by (simp add: scenarioEnv_def scenarioCancelled_def sw)
  have rd: "checkpoint (scenarioWorld (Holds t)) \<noteq> Malformed" for t
    by (simp add: sw)
  have clk: "clock scenarioEnv 0 = 63836460800000000000"
    by (simp add: scenarioEnv_def scenario_clock)
  have cf: "Repositories scenarioCfg = [''repo'']" "IntervalHours scenarioCfg = 24"
    by (simp_all add: scenarioCfg_def)
  have a: "trace (snd (iteration scenarioEnv scenarioCfg
        (scenarioWorld (Holds 63836374401000000000)))) = [EvGetCheckpoint, EvWait]"
    using C5_gate [OF nc rd, of "63836374401000000000" scenarioCfg]
    by (auto simp: sw clk scenario_interval IsZero_def Second_def Since_def Sub_def
        minDuration_def maxDuration_def)
  have b: "iteration scenarioEnv scenarioCfg (scenarioWorld (Holds 63836374399000000000)) =
     notifyAndWait scenarioEnv scenarioCfg
       ((emit EvGetCheckpoint (scenarioWorld (Holds 63836374399000000000)))
          \<lparr>selectCount := Suc 0, nowCount := Suc 0\<rparr>)
   \<and> (\<exists>evs rest.
         trace (snd (iteration scenarioEnv scenarioCfg
                       (scenarioWorld (Holds 63836374399000000000))))
           = [EvGetCheckpoint] @ evs @ rest
         \<and> EvListOpenPRs ''repo'' \<in> set evs)
   \<and> interval scenarioCfg = 24 * Hour"
    using C5_gate [OF nc rd, of "63836374399000000000" scenarioCfg]
    by (simp add: sw clk cf scenario_interval IsZero_def Hour_def Second_def Since_def
        Sub_def minDuration_def maxDuration_def) (elim conjE exE, simp, blast)
  from a b show ?thesis by blast
qed

section \<open>Checkpoint failures: properties\<close>

lemma run_loop_afterIterations:
  "afterIterations n env cfg w0 = Some w \<Longrightarrow> run_loop env cfg w0 = run_loop env cfg w"
proof (induction n arbitrary: w0)
  case 0
  then show ?case by simp
next
  case (Suc n)
  obtain out w1 where s: "iteration env cfg w0 = (out, w1)"
    by (cases "iteration env cfg w0")
  with Suc.prems have out: "out = Continue" and a: "afterIterations n env cfg w1 = Some w"
    by (auto split: outcome.splits)
  have "run_loop env cfg w0 = run_loop env cfg w1"
    by (subst run_loop.simps) (simp add: s out)
  then show ?case
    using Suc.IH [OF a] by simp
qed

text \<open>A run that returns does so from an iteration reached by going round the loop.\<close>

lemma run_loop_returns:
  assumes "run_loop env cfg w0 = Some y"
  shows "\<exists>n w. afterIterations n env cfg w0 = Some w
           \<and> iteration env cfg w = (Return (fst y), snd y)"
  using assms
proof (induction env cfg w0 y rule: run_loop.raw_induct)
  case (1 loop env cfg w y)
  obtain out w1 where s: "iteration env cfg w = (out, w1)"
    by (cases "iteration env cfg w")
  show ?case
  proof (cases out)
    case (Return r)
    then have "y = (r, w1)"
      using 1(2) s by simp
    then have "afterIterations 0 env cfg w = Some w
        \<and> iteration env cfg w = (Return (fst y), snd y)"
      using s Return by simp
    then show ?thesis by blast
  next
    case Continue
    then have l: "loop env cfg w1 = Some y"
      using 1(2) s by simp
    have "run_loop env cfg w = run_loop env cfg w1"
      by (subst run_loop.simps) (simp add: s Continue)
    then have r: "run_loop env cfg w1 = Some y"
      using 1(3) by simp
    from 1(1) [OF l r] obtain n w2 where
      a: "afterIterations n env cfg w1 = Some w2"
      and i: "iteration env cfg w2 = (Return (fst y), snd y)"
      by blast
    have "afterIterations (Suc n) env cfg w = Some w2"
      using a s Continue by simp
    with i show ?thesis by blast
  qed
qed (rule assms)

lemma wait_outcome:
  "fst (wait env w) = (if cancelled env (selectCount w) then Return None else Continue)"
  by (simp add: wait_def ctx_Done_def emit_def)

lemma notifyAndWait_outcome:
  "fst (notifyAndWait env cfg w) =
     (if cancelled env (selectCount w) then Return None else Continue)"
proof -
  obtain b w1 where c: "cycle env cfg w = (b, w1)"
    by (cases "cycle env cfg w")
  have s1: "selectCount w1 = selectCount w"
    using fetchesOnly_cycle [of w env cfg] c by (simp add: fetchesOnly_def)
  have d: "selectCount (dispatch env cfg b ns w1) = selectCount w1" for ns
    by (induction ns arbitrary: w1) (auto simp: emit_def split: option.splits)
  have s: "selectCount (snd (SetLastNotificationTime env t w')) = selectCount w'" for t w'
    by (simp add: SetLastNotificationTime_def Let_def emit_def)
  show ?thesis
  proof (cases "allPRsToNotify b = []")
    case True
    then show ?thesis
      using c s1 by (simp add: notifyAndWait_def wait_outcome)
  next
    case False
    let ?w2 = "dispatch env cfg b (notifiers cfg) w1"
    let ?w3 = "?w2\<lparr>nowCount := Suc (nowCount ?w2)\<rparr>"
    let ?now = "clock env (nowCount ?w2)"
    obtain err w4 where st: "SetLastNotificationTime env ?now ?w3 = (err, w4)"
      by (cases "SetLastNotificationTime env ?now ?w3")
    have "selectCount w4 = selectCount ?w3"
      using s [of ?now ?w3] st by simp
    then have s4: "selectCount w4 = selectCount w"
      using d [of "notifiers cfg"] s1 by simp
    have "notifyAndWait env cfg w = wait env w4"
      using c False st
      by (auto simp: notifyAndWait_def time_Now_def Let_def split: option.splits)
    then show ?thesis
      using s4 by (simp add: wait_outcome)
  qed
qed

text \<open>An iteration returns an error only when the read of the checkpoint failed, and
  the error is the one of the read.\<close>

lemma iteration_error:
  assumes "iteration env cfg w = (Return (Some e), w')"
  shows "\<not> cancelled env (selectCount w)
       \<and> GetLastNotificationTime (snd (ctx_Done env w)) = (Inl e, w')"
proof -
  let ?w1 = "snd (ctx_Done env w)"
  have nc: "\<not> cancelled env (selectCount w)"
    using assms by (auto simp: iteration_def ctx_Done_def)
  obtain r w2 where g: "GetLastNotificationTime ?w1 = (r, w2)"
    by (cases "GetLastNotificationTime ?w1")
  show ?thesis
  proof (cases r)
    case (Inl err)
    then show ?thesis
      using assms nc g by (simp add: iteration_def ctx_Done_def)
  next
    case (Inr lastNotified)
    obtain p w3 where gt: "gate env cfg lastNotified w2 = (p, w3)"
      by (cases "gate env cfg lastNotified w2")
    have "iteration env cfg w = (if \<not> p then wait env w3 else notifyAndWait env cfg w3)"
      using nc g Inr gt by (simp add: iteration_def ctx_Done_def)
    then have "fst (iteration env cfg w) \<noteq> Return (Some e)"
      by (simp add: wait_outcome notifyAndWait_outcome)
    then show ?thesis
      using assms by simp
  qed
qed

text \<open>
  Claim C2, as stated, has every failure of \<open>SetLastNotificationTime\<close> abort the loop
  with that error. In the scenario every write of the checkpoint fails: the first
  iteration logs the error, waits and goes round again, the second does the same and
  is cancelled in its wait, and \<open>run\<close> returns \<open>nil\<close>.
\<close>

theorem C2_write_failure_counterexample:
  "fst (SetLastNotificationTime scenarioEnv (scenarioClock 1) (scenarioWorld Unreadable))
     = Some (Error ''error writing timestamp file'')
   \<and> run scenarioEnv scenarioCfg (scenarioWorld Unreadable) =
     Some (None,
       \<lparr>checkpoint = Unreadable, nowCount = 4, selectCount = 4, writeCount = 2,
        trace =
          [EvGetCheckpoint, EvListOpenPRs ''repo'', EvGetParticipants ''repo'' 2,
           EvGetParticipants ''repo'' 3, EvGetComments ''repo'' 3, EvNotify ''email'',
           EvSetCheckpoint 63836460800001000000, EvWait,
           EvGetCheckpoint, EvListOpenPRs ''repo'', EvGetParticipants ''repo'' 2,
           EvGetParticipants ''repo'' 3, EvGetComments ''repo'' 3, EvNotify ''email'',
           EvSetCheckpoint 63836460800003000000, EvWait]\<rparr>)"
proof -
  let ?w1 = "\<lparr>checkpoint = Unreadable, nowCount = 2, selectCount = 2, writeCount = Suc 0,
        trace =
          [EvGetCheckpoint, EvListOpenPRs ''repo'', EvGetParticipants ''repo'' 2,
           EvGetParticipants ''repo'' 3, EvGetComments ''repo'' 3, EvNotify ''email'',
           EvSetCheckpoint 63836460800001000000, EvWait]\<rparr>"
  have i1: "iteration scenarioEnv scenarioCfg (scenarioWorld Unreadable) = (Continue, ?w1)"
    by (subst scenario_iteration) (simp_all add: scenarioWorld_def scenario_clock)
  have i2: "iteration scenarioEnv scenarioCfg ?w1 =
     (Return None,
       \<lparr>checkpoint = Unreadable, nowCount = 4, selectCount = 4, writeCount = Suc (Suc 0),
        trace =
          [EvGetCheckpoint, EvListOpenPRs ''repo'', EvGetParticipants ''repo'' 2,
           EvGetParticipants ''repo'' 3, EvGetComments ''repo'' 3, EvNotify ''email'',
           EvSetCheckpoint 63836460800001000000, EvWait,
           EvGetCheckpoint, EvListOpenPRs ''repo'', EvGetParticipants ''repo'' 2,
           EvGetParticipants ''repo'' 3, EvGetComments ''repo'' 3, EvNotify ''email'',
           EvSetCheckpoint 63836460800003000000, EvWait]\<rparr>)"
    by (subst scenario_iteration) (simp_all add: scenario_clock)
  have "run_loop scenarioEnv scenarioCfg (scenarioWorld Unreadable) =
      run_loop scenarioEnv scenarioCfg ?w1"
    by (subst run_loop.simps) (simp add: i1)
  also have "\<dots> = Some (snd (Return None, None),
       snd (iteration scenarioEnv scenarioCfg ?w1))"
    by (subst run_loop.simps) (simp add: i2)
  finally have r: "run scenarioEnv scenarioCfg (scenarioWorld Unreadable) =
      Some (None, snd (iteration scenarioEnv scenarioCfg ?w1))"
    by (simp add: run_def)
  have s: "fst (SetLastNotificationTime scenarioEnv (scenarioClock 1) (scenarioWorld Unreadable))
     = Some (Error ''error writing timestamp file'')"
    by (simp add: SetLastNotificationTime_def scenarioEnv_def scenario_years
        scenarioWriteFails_def Let_def emit_def)
  have r': "run scenarioEnv scenarioCfg (scenarioWorld Unreadable) =
      Some (None,
       \<lparr>checkpoint = Unreadable, nowCount = 4, selectCount = 4, writeCount = Suc (Suc 0),
        trace =
          [EvGetCheckpoint, EvListOpenPRs ''repo'', EvGetParticipants ''repo'' 2,
           EvGetParticipants ''repo'' 3, EvGetComments ''repo'' 3, EvNotify ''email'',
           EvSetCheckpoint 63836460800001000000, EvWait,
           EvGetCheckpoint, EvListOpenPRs ''repo'', EvGetParticipants ''repo'' 2,
           EvGetParticipants ''repo'' 3, EvGetComments ''repo'' 3, EvNotify ''email'',
           EvSetCheckpoint 63836460800003000000, EvWait]\<rparr>)"
    using r unfolding i2 by simp
  show ?thesis
    using r' s by simp
qed

text \<open>
  Claim C2 (amended): a failure to read the checkpoint is fatal: when an iteration
  that is not cancelled at its start gets an error from \<open>GetLastNotificationTime\<close>,
  \<open>run\<close> returns that error. A failure of \<open>SetLastNotificationTime\<close> is logged and
  nothing else: whatever it returns, the iteration ends with the wait step, so it
  returns \<open>nil\<close> when the context is cancelled there, and goes round again
  otherwise. The failed read is the only failure that aborts the loop: an iteration
  that returns an error was not cancelled at its start and returns the error of its
  \<open>GetLastNotificationTime\<close>, and when \<open>run\<close> returns an error, an iteration reached
  by going round the loop got that error from \<open>GetLastNotificationTime\<close>.
\<close>

theorem C2_checkpoint_failures:
  "(afterIterations n env cfg w0 = Some w \<and> \<not> cancelled env (selectCount w)
      \<and> fst (GetLastNotificationTime (snd (ctx_Done env w))) = Inl e
      \<longrightarrow> (\<exists>w'. run env cfg w0 = Some (Some e, w')))
   \<and> fst (notifyAndWait env cfg w) =
       (if cancelled env (selectCount w) then Return None else Continue)
   \<and> (iteration env cfg w = (Return (Some e), w1) \<longrightarrow>
        \<not> cancelled env (selectCount w)
        \<and> GetLastNotificationTime (snd (ctx_Done env w)) = (Inl e, w1))
   \<and> (run env cfg w0 = Some (Some e, w1) \<longrightarrow>
        (\<exists>m v. afterIterations m env cfg w0 = Some v \<and> \<not> cancelled env (selectCount v)
               \<and> GetLastNotificationTime (snd (ctx_Done env v)) = (Inl e, w1)))"
proof -
  have 1: "\<exists>w'. run env cfg w0 = Some (Some e, w')"
    if a: "afterIterations n env cfg w0 = Some w"
      and nc: "\<not> cancelled env (selectCount w)"
      and g: "fst (GetLastNotificationTime (snd (ctx_Done env w))) = Inl e"
  proof -
    obtain r w2 where gl: "GetLastNotificationTime (snd (ctx_Done env w)) = (r, w2)"
      by (cases "GetLastNotificationTime (snd (ctx_Done env w))")
    with g have r: "r = Inl e" by simp
    have it: "iteration env cfg w = (Return (Some e), w2)"
      using nc gl r by (simp add: iteration_def ctx_Done_def)
    have "run_loop env cfg w = Some (Some e, w2)"
      by (subst run_loop.simps) (simp add: it)
    then show ?thesis
      using run_loop_afterIterations [OF a] by (simp add: run_def)
  qed
  have 3: "\<not> cancelled env (selectCount w)
        \<and> GetLastNotificationTime (snd (ctx_Done env w)) = (Inl e, w1)"
    if "iteration env cfg w = (Return (Some e), w1)"
    using that by (rule iteration_error)
  have 4: "\<exists>m v. afterIterations m env cfg w0 = Some v \<and> \<not> cancelled env (selectCount v)
               \<and> GetLastNotificationTime (snd (ctx_Done env v)) = (Inl e, w1)"
    if "run env cfg w0 = Some (Some e, w1)"
  proof -
    have "run_loop env cfg w0 = Some (Some e, w1)"
      using that by (simp add: run_def)
    from run_loop_returns [OF this] obtain m v where
      a: "afterIterations m env cfg w0 = Some v"
      and i: "iteration env cfg v = (Return (Some e), w1)"
      by auto
    from iteration_error [OF i] a show ?thesis by blast
  qed
  from 1 3 4 show ?thesis
    using notifyAndWait_outcome [of env cfg w] by blast
qed

text \<open>The theorem in the scenario, the checkpoint file holding what is not a time:
  the first iteration reads the error and \<open>run\<close> returns it.\<close>

theorem C2_checkpoint_failures_witness:
  "run scenarioEnv scenarioCfg (scenarioWorld Malformed) =
     Some (Some (Error ''error parsing timestamp''),
           (emit EvGetCheckpoint (scenarioWorld Malformed))\<lparr>selectCount := 1\<rparr>)
   \<and> (\<exists>m v. afterIterations m scenarioEnv scenarioCfg (scenarioWorld Malformed) = Some v
          \<and> GetLastNotificationTime (snd (ctx_Done scenarioEnv v)) =
              (Inl (Error ''error parsing timestamp''),
               (emit EvGetCheckpoint (scenarioWorld Malformed))\<lparr>selectCount := 1\<rparr>))"
proof -
  let ?w1 = "(emit EvGetCheckpoint (scenarioWorld Malformed))\<lparr>selectCount := 1\<rparr>"
  have a: "afterIterations 0 scenarioEnv scenarioCfg (scenarioWorld Malformed)
      = Some (scenarioWorld Malformed)"
    by simp
  have nc: "\<not> cancelled scenarioEnv (selectCount (scenarioWorld Malformed))"
    by (simp add: scenarioEnv_def scenarioCancelled_def scenarioWorld_def)
  have g: "fst (GetLastNotificationTime (snd (ctx_Done scenarioEnv (scenarioWorld Malformed))))
      = Inl (Error ''error parsing timestamp'')"
    by (simp add: GetLastNotificationTime_def ctx_Done_def scenarioWorld_def)
  from C2_checkpoint_failures
    [of 0 scenarioEnv scenarioCfg "scenarioWorld Malformed" "scenarioWorld Malformed"
        "Error ''error parsing timestamp''"] a nc g
  obtain w' where r: "run scenarioEnv scenarioCfg (scenarioWorld Malformed) =
      Some (Some (Error ''error parsing timestamp''), w')"
    by blast
  have "iteration scenarioEnv scenarioCfg (scenarioWorld Malformed) =
      (Return (Some (Error ''error parsing timestamp'')), ?w1)"
    using nc
    by (simp add: iteration_def ctx_Done_def GetLastNotificationTime_def scenarioWorld_def
        emit_def)
  then have "run_loop scenarioEnv scenarioCfg (scenarioWorld Malformed) =
      Some (Some (Error ''error parsing timestamp''), ?w1)"
    by (subst run_loop.simps) simp
  with r have r': "run scenarioEnv scenarioCfg (scenarioWorld Malformed) =
      Some (Some (Error ''error parsing timestamp''), ?w1)"
    by (simp add: run_def)
  from C2_checkpoint_failures
    [of 0 scenarioEnv scenarioCfg "scenarioWorld Malformed" "scenarioWorld Malformed"
        "Error ''error parsing timestamp''" ?w1] r'
  have "\<exists>m v. afterIterations m scenarioEnv scenarioCfg (scenarioWorld Malformed) = Some v
          \<and> GetLastNotificationTime (snd (ctx_Done scenarioEnv v)) =
              (Inl (Error ''error parsing timestamp''), ?w1)"
    by blast
  with r' show ?thesis by blast
qed

section \<open>Witnesses for the cycle\<close>

theorem C8_checkpoint_update_witness:
  "checkpoint (snd (notifyAndWait scenarioEnv
       (scenarioCfg\<lparr>Repositories := []\<rparr>) (scenarioWorld (Holds 5)))) = Holds 5
   \<and> trace (snd (notifyAndWait scenarioEnv
       (scenarioCfg\<lparr>Repositories := []\<rparr>) (scenarioWorld (Holds 5)))) = [EvWait]"
proof -
  let ?cfg = "scenarioCfg\<lparr>Repositories := []\<rparr>"
  let ?w = "scenarioWorld (Holds 5)"
  have c: "cycle scenarioEnv ?cfg ?w = (emptyBatch, ?w)"
    by (simp add: cycle_def)
  obtain out w' where r: "notifyAndWait scenarioEnv ?cfg ?w = (out, w')"
    by (cases "notifyAndWait scenarioEnv ?cfg ?w")
  have e: "allPRsToNotify emptyBatch = []"
    by (simp add: emptyBatch_def)
  have w': "w' = (emit EvWait ?w)\<lparr>selectCount := Suc (selectCount ?w)\<rparr>"
    using r wait_world [of scenarioEnv ?w] by (simp add: notifyAndWait_def c e)
  from C8_checkpoint_update [OF c r] e
  have "checkpoint w' = checkpoint ?w" by blast
  then show ?thesis
    using r w' by (simp add: scenarioWorld_def emit_def)
qed

theorem C9_participant_map_witness:
  "prParticipants (fst (cycle scenarioEnv scenarioCfg (scenarioWorld Unreadable))) 2
     = Some [scenarioReviewer True]
   \<and> allPRsToNotify (fst (cycle scenarioEnv scenarioCfg (scenarioWorld Unreadable)))
     = [scenarioPR 3 ''waiting'' 1700000000000 0]"
proof -
  let ?w = "scenarioWorld Unreadable"
  obtain b w' where c: "cycle scenarioEnv scenarioCfg ?w = (b, w')"
    by (cases "cycle scenarioEnv scenarioCfg ?w")
  have 1: "''repo'' \<in> set (Repositories scenarioCfg)"
    by (simp add: scenarioCfg_def)
  have 2: "ListOpenPRs scenarioEnv ''repo'' =
      Inr [scenarioPR 1 ''[WIP] x'' 1700000000000 0, scenarioPR 2 ''ready'' 1700000000000 0,
           scenarioPR 3 ''waiting'' 1700000000000 0]"
    by (simp add: scenarioEnv_def scenarioPRs_def)
  have 3: "scenarioPR 2 ''ready'' 1700000000000 0
      \<in> set (FilterPRs (unicodeLower scenarioEnv)
          [scenarioPR 1 ''[WIP] x'' 1700000000000 0, scenarioPR 2 ''ready'' 1700000000000 0,
           scenarioPR 3 ''waiting'' 1700000000000 0] (IgnoreKeywords scenarioCfg))"
    using scenario_filter by (simp add: scenarioEnv_def scenarioCfg_def)
  have 4: "GetParticipants scenarioEnv ''repo'' (ID (scenarioPR 2 ''ready'' 1700000000000 0))
      = Inr [scenarioReviewer True]"
    by (simp add: scenarioEnv_def scenarioParticipants_def scenario_ids)
  from C9_participant_map [OF c 1 2 3 4]
  obtain ps' repo' where
    "prParticipants b (ID (scenarioPR 2 ''ready'' 1700000000000 0)) = Some ps'"
    "GetParticipants scenarioEnv repo' (ID (scenarioPR 2 ''ready'' 1700000000000 0)) = Inr ps'"
    by blast
  then have "prParticipants b 2 = Some [scenarioReviewer True]"
    by (simp add: scenario_ids scenarioEnv_def scenarioParticipants_def)
  moreover have "allPRsToNotify b = [scenarioPR 3 ''waiting'' 1700000000000 0]"
    using c scenario_cycle [of ?w] by (simp add: scenarioWorld_def)
  ultimately show ?thesis
    using c by simp
qed


section \<open>Calendar and the layout RFC3339: properties\<close>

text \<open>Truncated division and remainder, the calendar of \<open>date\<close>, and the round trip
  of a time through \<open>FormatRFC3339\<close> and \<open>Parse_RFC3339\<close>.\<close>

lemma go_rem_zero_iff: "go_rem a b = 0 \<longleftrightarrow> b dvd a" if "b > 0"
proof (cases "a \<ge> 0")
  case True
  have "a - b * (a div b) = a mod b" by (rule minus_mult_div_eq_mod)
  then have "go_rem a b = a mod b"
    using True that by (cases "a = 0") (simp_all add: go_rem_def go_quo_def)
  then show ?thesis by (simp add: dvd_eq_mod_eq_0)
next
  case False
  define X where "X = (- a) div b"
  have "(- a) - b * X = (- a) mod b"
    unfolding X_def by (rule minus_mult_div_eq_mod)
  moreover have "go_rem a b = a + b * X"
    using False that by (simp add: go_rem_def go_quo_def X_def)
  ultimately have "go_rem a b = - ((- a) mod b)" by linarith
  then show ?thesis by (simp add: dvd_eq_mod_eq_0 [symmetric])
qed

lemma isLeap_dvd: "isLeap y \<longleftrightarrow> 4 dvd y \<and> (\<not> 100 dvd y \<or> 400 dvd y)"
  by (simp add: isLeap_def go_rem_zero_iff)

lemma div_bounds: "0 < b \<Longrightarrow> b * (a div b) \<le> a \<and> a < b * (a div b) + b" for a b :: int
proof -
  assume b: "0 < b"
  have "a = b * (a div b) + a mod b" by simp
  moreover have "0 \<le> a mod b" "a mod b < b" using b by simp_all
  ultimately show ?thesis by linarith
qed

lemma div_unique_int: "0 \<le> r \<Longrightarrow> r < b \<Longrightarrow> (b * q + r) div b = q" for b q r :: int
  by (simp add: div_pos_pos_trivial)


lemma yearDay_decomp:
  assumes "yearDay d = (y, yd)"
  shows "\<exists>n400 n100 n4 n1 d3.
           y = 400 * n400 + 100 * n100 + 4 * n4 + n1 + 1 \<and> yd = d3 - 365 * n1
         \<and> d = 146097 * n400 + 36524 * n100 + 1461 * n4 + d3
         \<and> 146097 * n400 \<le> d \<and> d < 146097 * n400 + 146097
         \<and> 0 \<le> n100 \<and> n100 \<le> 3 \<and> 0 \<le> n4 \<and> n4 \<le> 24 \<and> 0 \<le> n1 \<and> n1 \<le> 3
         \<and> 0 \<le> d3 \<and> d3 < 1461 \<and> 365 * n1 \<le> d3
         \<and> (n100 < 3 \<longrightarrow> 1461 * n4 + d3 < 36524)
         \<and> (n1 < 3 \<longrightarrow> d3 < 365 * n1 + 365)
         \<and> (n1 = 3 \<longrightarrow> d3 \<le> 1460)
         \<and> (n4 = 24 \<and> d3 = 1460 \<longrightarrow> n100 = 3)"
proof -
  define n400 where "n400 = d div 146097"
  define d1 where "d1 = d - 146097 * n400"
  define q100 where "q100 = d1 div 36524"
  define n100 where "n100 = q100 - q100 div 4"
  define d2 where "d2 = d1 - 36524 * n100"
  define n4 where "n4 = d2 div 1461"
  define d3 where "d3 = d2 - 1461 * n4"
  define q1 where "q1 = d3 div 365"
  define n1 where "n1 = q1 - q1 div 4"
  have "yearDay d = (400 * n400 + 100 * n100 + 4 * n4 + n1 + 1, d3 - 365 * n1)"
    unfolding yearDay_def Let_def n1_def q1_def d3_def n4_def d2_def n100_def q100_def
      d1_def n400_def by (rule refl)
  with assms have y: "y = 400 * n400 + 100 * n100 + 4 * n4 + n1 + 1"
    and yd: "yd = d3 - 365 * n1"
    by simp_all
  have n400: "146097 * n400 \<le> d" "d < 146097 * n400 + 146097"
    unfolding n400_def using div_bounds [of 146097 d] by simp_all
  have d1: "0 \<le> d1" "d1 < 146097"
    unfolding d1_def using n400 by simp_all
  have q100: "36524 * q100 \<le> d1" "d1 < 36524 * q100 + 36524"
    unfolding q100_def using div_bounds [of 36524 d1] by simp_all
  have "0 \<le> q100" "q100 \<le> 4"
    using q100 d1 by linarith+
  then have q100c: "q100 = 0 \<or> q100 = 1 \<or> q100 = 2 \<or> q100 = 3 \<or> q100 = 4"
    by auto
  have n100: "n100 = (if q100 = 4 then 3 else q100)"
    using q100c unfolding n100_def by (elim disjE) simp_all
  have n100b: "0 \<le> n100" "n100 \<le> 3"
    using q100c n100 by (elim disjE; simp)+
  have d2: "0 \<le> d2" "d2 \<le> 36524" "n100 < 3 \<longrightarrow> d2 < 36524"
    using q100c q100 d1 unfolding d2_def n100 by (elim disjE; simp)+
  have n4: "1461 * n4 \<le> d2" "d2 < 1461 * n4 + 1461"
    unfolding n4_def using div_bounds [of 1461 d2] by simp_all
  have n4b: "0 \<le> n4" "n4 \<le> 24"
    using n4 d2 by linarith+
  have d3: "0 \<le> d3" "d3 < 1461"
    unfolding d3_def using n4 by linarith+
  have q1: "365 * q1 \<le> d3" "d3 < 365 * q1 + 365"
    unfolding q1_def using div_bounds [of 365 d3] by simp_all
  have "0 \<le> q1" "q1 \<le> 4"
    using q1 d3 by linarith+
  then have q1c: "q1 = 0 \<or> q1 = 1 \<or> q1 = 2 \<or> q1 = 3 \<or> q1 = 4"
    by auto
  have n1: "n1 = (if q1 = 4 then 3 else q1)"
    using q1c unfolding n1_def by (elim disjE) simp_all
  have n1b: "0 \<le> n1" "n1 \<le> 3" "365 * n1 \<le> d3" "n1 < 3 \<longrightarrow> d3 < 365 * n1 + 365"
    using q1c q1 n1 by (elim disjE; simp)+
  have sum: "d = 146097 * n400 + 36524 * n100 + 1461 * n4 + d3"
    unfolding d3_def d2_def d1_def by simp
  have l1: "n100 < 3 \<longrightarrow> 1461 * n4 + d3 < 36524"
    using d2(3) unfolding d3_def by simp
  have l2: "n4 = 24 \<and> d3 = 1460 \<longrightarrow> n100 = 3"
    using d2(3) n100b unfolding d3_def by auto
  have l3: "n1 = 3 \<longrightarrow> d3 \<le> 1460"
    using d3 by simp
  show ?thesis
    apply (rule exI [of _ n400], rule exI [of _ n100], rule exI [of _ n4])
    apply (rule exI [of _ n1], rule exI [of _ d3])
    using y yd sum n400 n100b n4b n1b d3 l1 l2 l3 by blast
qed

lemma yearDay_props:
  assumes "yearDay d = (y, yd)"
  shows "0 \<le> yd \<and> yd \<le> (if isLeap y then 365 else 364) \<and> daysSinceEpoch y + yd = d"
proof -
  from yearDay_decomp [OF assms] obtain n400 n100 n4 n1 d3 where
    y: "y = 400 * n400 + 100 * n100 + 4 * n4 + n1 + 1" and yd: "yd = d3 - 365 * n1"
    and sum: "d = 146097 * n400 + 36524 * n100 + 1461 * n4 + d3"
    and n100b: "0 \<le> n100" "n100 \<le> 3" and n4b: "0 \<le> n4" "n4 \<le> 24"
    and n1b: "0 \<le> n1" "n1 \<le> 3"
    and d3: "0 \<le> d3" "d3 < 1461" "365 * n1 \<le> d3"
    and l2: "n1 < 3 \<longrightarrow> d3 < 365 * n1 + 365"
    and l4: "n4 = 24 \<and> d3 = 1460 \<longrightarrow> n100 = 3"
    by blast
  have ydb: "0 \<le> yd" "yd \<le> 365" "yd = 365 \<longrightarrow> n1 = 3 \<and> d3 = 1460"
    using d3 l2 n1b unfolding yd by linarith+
  have e1: "(y - 1) div 400 = n400"
  proof -
    have "y - 1 = 400 * n400 + (100 * n100 + 4 * n4 + n1)" using y by simp
    then show ?thesis
      using div_unique_int [of "100 * n100 + 4 * n4 + n1" 400 n400] n100b n4b n1b by simp
  qed
  have e2: "(100 * n100 + 4 * n4 + n1) div 100 = n100"
    using div_unique_int [of "4 * n4 + n1" 100 n100] n4b n1b by simp
  have e3: "(4 * n4 + n1) div 4 = n4"
    using div_unique_int [of n1 4 n4] n1b by simp
  have dse: "daysSinceEpoch y = 146097 * n400 + 36524 * n100 + 1461 * n4 + 365 * n1"
    unfolding daysSinceEpoch_def Let_def e1 using e2 e3 y by simp
  have sum': "daysSinceEpoch y + yd = d"
    unfolding dse yd sum by simp
  have leap: "isLeap y" if "yd = 365"
  proof -
    from that ydb have n13: "n1 = 3" and d3e: "d3 = 1460" by simp_all
    have y4: "y = 4 * (100 * n400 + 25 * n100 + n4 + 1)" using y n13 by simp
    then have "4 dvd y" by simp
    moreover have "\<not> 100 dvd y \<or> 400 dvd y"
    proof (cases "n4 = 24")
      case True
      then have "n100 = 3" using l4 d3e by simp
      then have "y = 400 * (n400 + 1)" using y n13 True by simp
      then show ?thesis by simp
    next
      case False
      then have n4': "n4 \<le> 23" using n4b by simp
      have "y = 100 * (4 * n400 + n100) + (4 * n4 + 4)" using y n13 by simp
      moreover have "\<not> 100 dvd (4 * n4 + 4)"
        using n4' n4b by (auto dest!: zdvd_imp_le)
      ultimately show ?thesis
        by (simp add: dvd_add_right_iff)
    qed
    ultimately show ?thesis by (simp add: isLeap_dvd)
  qed
  show ?thesis
    using ydb sum' leap by (cases "yd = 365") auto
qed

lemma yearDay_range:
  assumes "yearDay d = (y, yd)" "- 366 \<le> d" "d < 3652059"
  shows "0 \<le> y \<and> y \<le> 9999"
proof -
  from yearDay_decomp [OF assms(1)] obtain n400 n100 n4 n1 d3 where
    y: "y = 400 * n400 + 100 * n100 + 4 * n4 + n1 + 1"
    and sum: "d = 146097 * n400 + 36524 * n100 + 1461 * n4 + d3"
    and n400: "146097 * n400 \<le> d" "d < 146097 * n400 + 146097"
    and n100b: "0 \<le> n100" "n100 \<le> 3" and n4b: "0 \<le> n4" "n4 \<le> 24"
    and n1b: "0 \<le> n1" "n1 \<le> 3"
    and d3: "0 \<le> d3" "d3 < 1461" "365 * n1 \<le> d3"
    and l1: "n100 < 3 \<longrightarrow> 1461 * n4 + d3 < 36524"
    and l2: "n1 < 3 \<longrightarrow> d3 < 365 * n1 + 365"
    by blast
  have nb: "- 1 \<le> n400" "n400 \<le> 24"
    using n400 assms(2,3) by linarith+
  have lo: "0 \<le> y"
  proof (cases "n400 = - 1")
    case True
    have a: "n100 = 3" using l1 sum True assms(2) n100b n4b d3 by linarith
    have b: "n4 = 24" using sum True assms(2) a n4b d3 by linarith
    have c: "n1 = 3" using l2 sum True assms(2) a b n1b by linarith
    show ?thesis using y True a b c by simp
  next
    case False
    then have "0 \<le> n400" using nb by simp
    then show ?thesis using y n100b n4b n1b by linarith
  qed
  have hi: "y \<le> 9999"
  proof (cases "n400 = 24")
    case True
    have "\<not> (n100 = 3 \<and> n4 = 24 \<and> n1 = 3)"
      using sum True assms(3) d3 by linarith
    then have "100 * n100 + 4 * n4 + n1 \<le> 398"
      using n100b n4b n1b by linarith
    then show ?thesis using y True by simp
  next
    case False
    then have "n400 \<le> 23" using nb by simp
    then show ?thesis using y n100b n4b n1b by linarith
  qed
  from lo hi show ?thesis ..
qed

text \<open>The month and the day of the month of a day of a common year, counted from
  0: what \<open>monthDay\<close> computes once the leap day is set aside.\<close>

definition monthOf :: "int \<Rightarrow> int \<times> int" where
  "monthOf day =
     (let month = day div 31; endDay = daysBefore ! nat (month + 1)
      in if day \<ge> endDay then (month + 2, day - endDay + 1)
         else (month + 1, day - daysBefore ! nat month + 1))"

lemma monthOf_props:
  assumes "0 \<le> day" "day \<le> 364" "monthOf day = (m, dd)"
  shows "1 \<le> m \<and> m \<le> 12 \<and> 1 \<le> dd
         \<and> dd \<le> daysBefore ! nat m - daysBefore ! nat (m - 1)
         \<and> daysBefore ! nat (m - 1) + (dd - 1) = day
         \<and> (m \<ge> 3 \<longleftrightarrow> day \<ge> 59)"
proof -
  define month where "month = day div 31"
  have b: "31 * month \<le> day" "day < 31 * month + 31"
    unfolding month_def using div_bounds [of 31 day] by simp_all
  have "0 \<le> month" "month \<le> 11"
    using b assms(1,2) by linarith+
  then have c: "month = 0 \<or> month = 1 \<or> month = 2 \<or> month = 3 \<or> month = 4 \<or> month = 5
      \<or> month = 6 \<or> month = 7 \<or> month = 8 \<or> month = 9 \<or> month = 10 \<or> month = 11"
    by arith
  have r: "(m, dd) =
     (if day \<ge> daysBefore ! nat (month + 1) then (month + 2, day - daysBefore ! nat (month + 1) + 1)
      else (month + 1, day - daysBefore ! nat month + 1))"
    using assms(3) unfolding monthOf_def Let_def month_def by simp
  show ?thesis
    using c
  proof (elim disjE)
    assume "month = 0" with r b assms(2) show ?thesis
      by (simp add: daysBefore_def split: if_splits)
  next
    assume "month = 1" with r b assms(2) show ?thesis
      by (simp add: daysBefore_def split: if_splits)
  next
    assume "month = 2" with r b assms(2) show ?thesis
      by (simp add: daysBefore_def split: if_splits)
  next
    assume "month = 3" with r b assms(2) show ?thesis
      by (simp add: daysBefore_def split: if_splits)
  next
    assume "month = 4" with r b assms(2) show ?thesis
      by (simp add: daysBefore_def split: if_splits)
  next
    assume "month = 5" with r b assms(2) show ?thesis
      by (simp add: daysBefore_def split: if_splits)
  next
    assume "month = 6" with r b assms(2) show ?thesis
      by (simp add: daysBefore_def split: if_splits)
  next
    assume "month = 7" with r b assms(2) show ?thesis
      by (simp add: daysBefore_def split: if_splits)
  next
    assume "month = 8" with r b assms(2) show ?thesis
      by (simp add: daysBefore_def split: if_splits)
  next
    assume "month = 9" with r b assms(2) show ?thesis
      by (simp add: daysBefore_def split: if_splits)
  next
    assume "month = 10" with r b assms(2) show ?thesis
      by (simp add: daysBefore_def split: if_splits)
  next
    assume "month = 11" with r b assms(2) show ?thesis
      by (simp add: daysBefore_def split: if_splits)
  qed
qed


lemma monthDay_monthOf:
  "monthDay leap yd =
     (if leap \<and> yd = 59 then (2, 29)
      else monthOf (if leap \<and> yd > 59 then yd - 1 else yd))"
  by (simp add: monthDay_def monthOf_def Let_def)

lemma monthDay_props:
  assumes "0 \<le> yd" "yd \<le> (if leap then 365 else 364)" "monthDay leap yd = (m, dd)"
  shows "1 \<le> m \<and> m \<le> 12 \<and> 1 \<le> dd
         \<and> dd \<le> (if m = 2 \<and> leap then 29 else daysBefore ! nat m - daysBefore ! nat (m - 1))
         \<and> daysBefore ! nat (m - 1) + (if leap \<and> m \<ge> 3 then 1 else 0) + (dd - 1) = yd"
proof (cases "leap \<and> yd = 59")
  case True
  then have "m = 2" "dd = 29"
    using assms(3) by (simp_all add: monthDay_monthOf)
  then show ?thesis
    using True by (simp add: daysBefore_def)
next
  case False
  define day where "day = (if leap \<and> yd > 59 then yd - 1 else yd)"
  have mo: "monthOf day = (m, dd)"
    using assms(3) False by (simp add: monthDay_monthOf day_def)
  have db: "0 \<le> day" "day \<le> 364"
    using assms(1,2) by (auto simp: day_def split: if_splits)
  note p = monthOf_props [OF db mo]
  have two: "daysBefore ! nat 2 - daysBefore ! nat (2 - 1) = 28"
    by (simp add: daysBefore_def)
  show ?thesis
  proof (cases "leap \<and> yd > 59")
    case True
    then have "day = yd - 1" by (simp add: day_def)
    then show ?thesis
      using p True by auto
  next
    case no: False
    then have "day = yd" by (simp add: day_def)
    moreover have "leap \<longrightarrow> yd < 59"
      using no False by auto
    ultimately show ?thesis
      using p two by auto
  qed
qed

lemma date_props:
  assumes "date d = (y, m, dd)"
  shows "1 \<le> m \<and> m \<le> 12 \<and> 1 \<le> dd \<and> dd \<le> daysIn m y
         \<and> daysSinceEpoch y + daysBefore ! nat (m - 1)
            + (if isLeap y \<and> m \<ge> 3 then 1 else 0) + (dd - 1) = d"
proof -
  obtain y' yd where yd: "yearDay d = (y', yd)"
    by (cases "yearDay d")
  obtain m' dd' where md: "monthDay (isLeap y') yd = (m', dd')"
    by (cases "monthDay (isLeap y') yd")
  have e: "y' = y" "m' = m" "dd' = dd"
    using assms yd md by (simp_all add: date_def)
  note a = yearDay_props [OF yd]
  have b: "0 \<le> yd" "yd \<le> (if isLeap y' then 365 else 364)"
    using a by simp_all
  note c = monthDay_props [OF b md]
  show ?thesis
    using a c unfolding e daysIn_def by auto
qed


subsection \<open>Digits\<close>

lemma of_char_digit: "0 \<le> d \<Longrightarrow> d \<le> 9 \<Longrightarrow> (of_char (digit d) :: nat) = 48 + nat d"
  by (simp add: digit_def)

lemma isDigitChar_digit: "0 \<le> d \<Longrightarrow> d \<le> 9 \<Longrightarrow> isDigitChar (digit d)"
  by (simp add: isDigitChar_def of_char_digit)

lemma digitVal_digit: "0 \<le> d \<Longrightarrow> d \<le> 9 \<Longrightarrow> digitVal (digit d) = d"
  by (simp add: digitVal_def of_char_digit)

lemma digit_0: "CHR ''0'' = digit 0"
  by code_simp

lemma digits_1: "n < 10 \<Longrightarrow> digits n = [digit (int n)]"
  by (subst digits.simps) simp

lemma digits_2: "10 \<le> n \<Longrightarrow> n < 100 \<Longrightarrow> digits n = [digit (int (n div 10)), digit (int (n mod 10))]"
  by (subst digits.simps) (simp add: digits_1)

lemma digits_3:
  "100 \<le> n \<Longrightarrow> n < 1000 \<Longrightarrow>
   digits n = [digit (int (n div 100)), digit (int (n div 10 mod 10)), digit (int (n mod 10))]"
  by (subst digits.simps) (simp add: digits_2 div_mult2_eq [symmetric])

lemma digits_4:
  "1000 \<le> n \<Longrightarrow> n < 10000 \<Longrightarrow>
   digits n = [digit (int (n div 1000)), digit (int (n div 100 mod 10)),
               digit (int (n div 10 mod 10)), digit (int (n mod 10))]"
  by (subst digits.simps) (simp add: digits_3 div_mult2_eq [symmetric])

lemma appendInt_2:
  assumes "0 \<le> x" "x < 100"
  shows "appendInt x 2 = [digit (x div 10), digit (x mod 10)]"
proof -
  define n where "n = nat x"
  have x: "x = int n" and n: "n < 100" using assms by (simp_all add: n_def)
  show ?thesis
  proof (cases "n < 10")
    case True
    then show ?thesis
      unfolding x by (simp add: appendInt_def digits_1 digit_0)
  next
    case False
    then show ?thesis
      unfolding x using n by (simp add: appendInt_def digits_2 zdiv_int zmod_int)
  qed
qed

lemma appendInt_4:
  assumes "0 \<le> x" "x < 10000"
  shows "appendInt x 4 =
     [digit (x div 1000), digit (x div 100 mod 10), digit (x div 10 mod 10), digit (x mod 10)]"
proof -
  define n where "n = nat x"
  have x: "x = int n" and n: "n < 10000" using assms by (simp_all add: n_def)
  consider "n < 10" | "10 \<le> n" "n < 100" | "100 \<le> n" "n < 1000" | "1000 \<le> n"
    by linarith
  then show ?thesis
  proof cases
    case 1
    then show ?thesis
      unfolding x by (simp add: appendInt_def digits_1 digit_0 numeral_3_eq_3)
  next
    case 2
    then show ?thesis
      unfolding x
      by (simp add: appendInt_def digits_2 digit_0 zdiv_int zmod_int numeral_2_eq_2)
  next
    case 3
    then show ?thesis
      unfolding x by (simp add: appendInt_def digits_3 digit_0 zdiv_int zmod_int)
  next
    case 4
    then show ?thesis
      unfolding x using n by (simp add: appendInt_def digits_4 zdiv_int zmod_int)
  qed
qed


lemma recompose_2: "10 * (x div 10) + x mod 10 = x" for x :: int
  by simp

lemma recompose_4:
  "1000 * (x div 1000) + 100 * (x div 100 mod 10) + 10 * (x div 10 mod 10) + x mod 10 = x"
  for x :: int
proof -
  have a: "x div 100 = (x div 10) div 10" and b: "x div 1000 = (x div 100) div 10"
    by (simp_all add: zdiv_zmult2_eq [symmetric])
  have 1: "10 * (x div 10) + x mod 10 = x" by simp
  have 2: "10 * (x div 100) + x div 10 mod 10 = x div 10" unfolding a by simp
  have 3: "10 * (x div 1000) + x div 100 mod 10 = x div 100" unfolding b by simp
  from 1 2 3 show ?thesis by linarith
qed

lemma parseUint_2:
  assumes "0 \<le> a" "a \<le> 9" "0 \<le> b" "b \<le> 9"
  shows "parseUint [digit a, digit b] lo hi =
           (if 10 * a + b < lo \<or> hi < 10 * a + b then None else Some (10 * a + b))"
  using assms by (simp add: parseUint_def decimal_def digitVal_digit isDigitChar_digit Let_def)

lemma parseUint_4:
  assumes "0 \<le> a" "a \<le> 9" "0 \<le> b" "b \<le> 9" "0 \<le> c" "c \<le> 9" "0 \<le> d" "d \<le> 9"
  shows "parseUint [digit a, digit b, digit c, digit d] lo hi =
           (if 1000 * a + 100 * b + 10 * c + d < lo \<or> hi < 1000 * a + 100 * b + 10 * c + d
            then None else Some (1000 * a + 100 * b + 10 * c + d))"
  using assms by (simp add: parseUint_def decimal_def digitVal_digit isDigitChar_digit Let_def)

lemma div_mod_10_bounds:
  fixes x :: int
  assumes "0 \<le> x" "x \<le> 10 * k + 9"
  shows "0 \<le> x div 10" "x div 10 \<le> k" "0 \<le> x mod 10" "x mod 10 \<le> 9"
proof -
  define q where "q = x div 10"
  define r where "r = x mod 10"
  have "x = 10 * q + r" "0 \<le> r" "r < 10"
    by (simp_all add: q_def r_def)
  then have "0 \<le> q \<and> q \<le> k \<and> 0 \<le> r \<and> r \<le> 9"
    using assms by linarith
  then show "0 \<le> x div 10" "x div 10 \<le> k" "0 \<le> x mod 10" "x mod 10 \<le> 9"
    by (simp_all add: q_def r_def)
qed

lemma parseUint_digits_2:
  assumes "0 \<le> x" "x < 100"
  shows "parseUint [digit (x div 10), digit (x mod 10)] lo hi =
           (if x < lo \<or> hi < x then None else Some x)"
proof -
  have x: "x \<le> 10 * 9 + 9" using assms by simp
  note a = div_mod_10_bounds [OF assms(1) x]
  show ?thesis
    unfolding parseUint_2 [OF a] recompose_2 ..
qed

lemma parseUint_digits_4:
  assumes "0 \<le> x" "x < 10000"
  shows "parseUint [digit (x div 1000), digit (x div 100 mod 10), digit (x div 10 mod 10),
                    digit (x mod 10)] lo hi =
           (if x < lo \<or> hi < x then None else Some x)"
proof -
  have e: "x div 100 = (x div 10) div 10" "x div 1000 = (x div 10 div 10) div 10"
    by (simp_all add: zdiv_zmult2_eq [symmetric])
  have x: "x \<le> 10 * 999 + 9" using assms by simp
  note 1 = div_mod_10_bounds [OF assms(1) x]
  have x1: "x div 10 \<le> 10 * 99 + 9" using 1(2) by simp
  note 2 = div_mod_10_bounds [OF 1(1) x1]
  have x2: "x div 10 div 10 \<le> 10 * 9 + 9" using 2(2) by simp
  note 3 = div_mod_10_bounds [OF 2(1) x2]
  have a: "0 \<le> x div 1000" "x div 1000 \<le> 9" "0 \<le> x div 100 mod 10" "x div 100 mod 10 \<le> 9"
    unfolding e by (rule 3)+
  show ?thesis
    unfolding parseUint_4 [OF a 2(3,4) 1(3,4)] recompose_4 ..
qed

lemma go_quo_nonneg: "0 \<le> a \<Longrightarrow> 0 < b \<Longrightarrow> go_quo a b = a div b"
  by (cases "a = 0") (simp_all add: go_quo_def)

lemma go_rem_nonneg: "0 \<le> a \<Longrightarrow> 0 < b \<Longrightarrow> go_rem a b = a mod b"
  by (simp add: go_rem_def go_quo_nonneg minus_mult_div_eq_mod)

lemma daysIn_le_31: "1 \<le> m \<Longrightarrow> m \<le> 12 \<Longrightarrow> daysIn m y \<le> 31"
proof -
  assume "1 \<le> m" "m \<le> 12"
  then have "m = 1 \<or> m = 2 \<or> m = 3 \<or> m = 4 \<or> m = 5 \<or> m = 6 \<or> m = 7 \<or> m = 8 \<or> m = 9
      \<or> m = 10 \<or> m = 11 \<or> m = 12"
    by arith
  then show ?thesis
    by (elim disjE) (simp_all add: daysIn_def daysBefore_def)
qed


lemma Date_date:
  assumes "date days = (Y, M, D)"
  shows "Date Y M D h mi sc ns = (days * 86400 + h * 3600 + mi * 60 + sc) * Second + ns"
  using date_props [OF assms] by (simp add: Date_def Let_def)

lemma clock_fields:
  fixes secs :: int
  assumes "0 \<le> secs" "secs < 86400"
  shows "0 \<le> secs div 3600" "secs div 3600 \<le> 23"
        "0 \<le> secs mod 3600 div 60" "secs mod 3600 div 60 \<le> 59"
        "0 \<le> secs mod 60" "secs mod 60 \<le> 59"
        "secs div 3600 * 3600 + secs mod 3600 div 60 * 60 + secs mod 60 = secs"
proof -
  define h where "h = secs div 3600"
  define r where "r = secs mod 3600"
  define mi where "mi = r div 60"
  define sc where "sc = r mod 60"
  have 1: "secs = 3600 * h + r" "0 \<le> r" "r < 3600"
    by (simp_all add: h_def r_def)
  have 2: "r = 60 * mi + sc" "0 \<le> sc" "sc < 60"
    by (simp_all add: mi_def sc_def)
  have sc: "secs mod 60 = sc"
    unfolding sc_def r_def by (simp add: mod_mod_cancel)
  have "0 \<le> h \<and> h \<le> 23 \<and> 0 \<le> mi \<and> mi \<le> 59 \<and> 0 \<le> sc \<and> sc \<le> 59
      \<and> h * 3600 + mi * 60 + sc = secs"
    using 1 2 assms by linarith
  then show "0 \<le> secs div 3600" "secs div 3600 \<le> 23"
        "0 \<le> secs mod 3600 div 60" "secs mod 3600 div 60 \<le> 59"
        "0 \<le> secs mod 60" "secs mod 60 \<le> 59"
        "secs div 3600 * 3600 + secs mod 3600 div 60 * 60 + secs mod 60 = secs"
    unfolding sc by (simp_all add: h_def mi_def r_def)
qed

lemma formatZone_nonzero:
  assumes "off \<noteq> 0" "\<bar>off\<bar> < 86400"
  shows "\<exists>sg zh zm. formatZone off =
            [sg, digit (zh div 10), digit (zh mod 10), CHR '':'', digit (zm div 10),
             digit (zm mod 10)]
          \<and> (sg = CHR ''-'' \<or> sg = CHR ''+'') \<and> 0 \<le> zh \<and> zh \<le> 23 \<and> 0 \<le> zm \<and> zm \<le> 59
          \<and> (if sg = CHR ''-'' then - ((zh * 60 + zm) * 60) else (zh * 60 + zm) * 60)
              = 60 * go_quo off 60"
proof -
  define zone where "zone = go_quo off 60"
  define az where "az = \<bar>off\<bar> div 60"
  define zh where "zh = az div 60"
  define zm where "zm = az mod 60"
  have zone: "zone = sgn off * az"
    by (simp add: zone_def go_quo_def az_def)
  have azb: "0 \<le> az" "az \<le> 1439"
    using assms(2) div_bounds [of 60 "\<bar>off\<bar>"] unfolding az_def by linarith+
  have abs: "\<bar>zone\<bar> = az"
    using azb assms(1) by (simp add: zone abs_mult)
  have z: "az = 60 * zh + zm" "0 \<le> zm" "zm < 60"
    by (simp_all add: zh_def zm_def)
  have zb: "0 \<le> zh" "zh \<le> 23" "zm \<le> 59"
    using z azb by linarith+
  have q: "go_quo \<bar>zone\<bar> 60 = zh" "go_rem \<bar>zone\<bar> 60 = zm"
    unfolding abs using azb by (simp_all add: go_quo_nonneg go_rem_nonneg zh_def zm_def)
  have zh100: "zh < 100" and zm100: "zm < 100" using zb by simp_all
  have f: "formatZone off =
      [if zone < 0 then CHR ''-'' else CHR ''+'', digit (zh div 10), digit (zh mod 10),
       CHR '':'', digit (zm div 10), digit (zm mod 10)]"
    using assms(1)
    by (simp add: formatZone_def Let_def zone_def [symmetric] q
        appendInt_2 [OF zb(1) zh100] appendInt_2 [OF z(2) zm100])
  have v: "(if zone < 0 then - ((zh * 60 + zm) * 60) else (zh * 60 + zm) * 60) = 60 * zone"
  proof (cases "off < 0")
    case True
    then have "zone = - az" by (simp add: zone)
    moreover have "az = 0 \<or> 0 < az" using azb by linarith
    ultimately show ?thesis using z by auto
  next
    case False
    then have "zone = az" using assms(1) by (simp add: zone)
    then show ?thesis using z azb by auto
  qed
  show ?thesis
    apply (rule exI [of _ "if zone < 0 then CHR ''-'' else CHR ''+''"])
    apply (rule exI [of _ zh])
    apply (rule exI [of _ zm])
    using f v zb z(2) by (auto simp: zone_def)
qed

lemma fraction_formatZone: "fraction ''.'' (formatZone off) = (0, formatZone off)"
  by (simp add: fraction_def formatZone_def Let_def)


lemma parseRFC3339_explicit:
  assumes Y: "0 \<le> Y" "Y \<le> 9999"
      and M: "1 \<le> M" "M \<le> 12"
      and D: "1 \<le> D" "D \<le> daysIn M Y"
      and h: "0 \<le> h" "h \<le> 23"
      and mi: "0 \<le> mi" "mi \<le> 59"
      and sc: "0 \<le> sc" "sc \<le> 59"
      and off: "\<bar>off\<bar> < 86400"
  shows "parseRFC3339
           ([digit (Y div 1000), digit (Y div 100 mod 10), digit (Y div 10 mod 10),
             digit (Y mod 10), CHR ''-'', digit (M div 10), digit (M mod 10), CHR ''-'',
             digit (D div 10), digit (D mod 10), CHR ''T'', digit (h div 10), digit (h mod 10),
             CHR '':'', digit (mi div 10), digit (mi mod 10), CHR '':'', digit (sc div 10),
             digit (sc mod 10)] @ formatZone off)
         = Some (Date Y M D h mi sc 0 - 60 * go_quo off 60 * Second)"
proof -
  have Y': "Y < 10000" using Y by simp
  have D31: "D \<le> 31" using daysIn_le_31 [OF M, of Y] D by simp
  have lt: "M < 100" "0 \<le> M" "D < 100" "0 \<le> D" "h < 100" "mi < 100" "sc < 100"
    using M D31 D h mi sc by simp_all
  note pu = parseUint_digits_4 [OF Y(1) Y'] parseUint_digits_2 [OF lt(2) lt(1)]
    parseUint_digits_2 [OF lt(4) lt(3)] parseUint_digits_2 [OF h(1) lt(5)]
    parseUint_digits_2 [OF mi(1) lt(6)] parseUint_digits_2 [OF sc(1) lt(7)]
  show ?thesis
  proof (cases "off = 0")
    case True
    then have z: "formatZone off = ''Z''" by (simp add: formatZone_def)
    have q: "go_quo off 60 = 0" using True by (simp add: go_quo_def)
    show ?thesis
      unfolding z q
      using Y M D h mi sc
      by (simp add: parseRFC3339_def pu fraction_def)
  next
    case False
    from formatZone_nonzero [OF False off] obtain sg zh zm where
      z: "formatZone off =
            [sg, digit (zh div 10), digit (zh mod 10), CHR '':'', digit (zm div 10),
             digit (zm mod 10)]"
      and sg: "sg = CHR ''-'' \<or> sg = CHR ''+''"
      and zb: "0 \<le> zh" "zh \<le> 23" "0 \<le> zm" "zm \<le> 59"
      and v: "(if sg = CHR ''-'' then - ((zh * 60 + zm) * 60) else (zh * 60 + zm) * 60)
              = 60 * go_quo off 60"
      by blast
    have zlt: "zh < 100" "zm < 100" using zb by simp_all
    note pz = parseUint_digits_2 [OF zb(1) zlt(1)] parseUint_digits_2 [OF zb(3) zlt(2)]
    have fr: "fraction ''.'' [sg, digit (zh div 10), digit (zh mod 10), CHR '':'',
        digit (zm div 10), digit (zm mod 10)] =
        (0, [sg, digit (zh div 10), digit (zh mod 10), CHR '':'', digit (zm div 10),
             digit (zm mod 10)])"
      using sg by (auto simp: fraction_def)
    show ?thesis
      unfolding z v [symmetric]
      using Y M D h mi sc zb sg
      by (auto simp: parseRFC3339_def pu pz fr Let_def)
  qed
qed


lemma Parse_Format:
  assumes yr: "0 \<le> yearOf loc t" "yearOf loc t \<le> 9999"
      and off: "\<bar>loc (unixSec t)\<bar> < 86400"
  shows "Parse_RFC3339 (FormatRFC3339 loc t) =
           Inr ((t div Second + go_rem (loc (unixSec t)) 60) * Second)"
proof -
  define off where "off = loc (unixSec t)"
  define A where "A = t div Second + off"
  define days where "days = A div 86400"
  define secs where "secs = A mod 86400"
  obtain Y M D where dt: "date days = (Y, M, D)"
    by (cases "date days") auto
  define h where "h = secs div 3600"
  define mi where "mi = secs mod 3600 div 60"
  define sc where "sc = secs mod 60"
  have secs: "0 \<le> secs" "secs < 86400"
    by (simp_all add: secs_def)
  note cf = clock_fields [OF secs, folded h_def mi_def sc_def]
  have Y: "0 \<le> Y" "Y \<le> 9999"
    using yr dt by (simp_all add: yearOf_def days_def A_def off_def)
  note dp = date_props [OF dt]
  have M: "1 \<le> M" "M \<le> 12" and D: "1 \<le> D" "D \<le> daysIn M Y"
    using dp by simp_all
  have D31: "D \<le> 31" using daysIn_le_31 [OF M, of Y] D by simp
  have F: "FormatRFC3339 loc t =
      appendInt Y 4 @ ''-'' @ appendInt M 2 @ ''-'' @ appendInt D 2 @ ''T''
      @ appendInt h 2 @ '':'' @ appendInt mi 2 @ '':'' @ appendInt sc 2 @ formatZone off"
    unfolding FormatRFC3339_def Let_def h_def mi_def sc_def secs_def
      dt [unfolded days_def A_def off_def] A_def off_def prod.case
    by (rule refl)
  have F': "FormatRFC3339 loc t =
      [digit (Y div 1000), digit (Y div 100 mod 10), digit (Y div 10 mod 10),
       digit (Y mod 10), CHR ''-'', digit (M div 10), digit (M mod 10), CHR ''-'',
       digit (D div 10), digit (D mod 10), CHR ''T'', digit (h div 10), digit (h mod 10),
       CHR '':'', digit (mi div 10), digit (mi mod 10), CHR '':'', digit (sc div 10),
       digit (sc mod 10)] @ formatZone off"
    unfolding F
    using Y M D D31 cf
    by (simp add: appendInt_4 appendInt_2)
  have "parseRFC3339 (FormatRFC3339 loc t) =
      Some (Date Y M D h mi sc 0 - 60 * go_quo off 60 * Second)"
    unfolding F'
    by (rule parseRFC3339_explicit [OF Y M D cf(1-6) off [folded off_def]])
  also have "Date Y M D h mi sc 0 = (days * 86400 + secs) * Second"
    unfolding Date_date [OF dt] using cf(7) by simp
  also have "days * 86400 + secs = A"
    by (simp add: days_def secs_def)
  also have "A * Second - 60 * go_quo off 60 * Second = (t div Second + go_rem off 60) * Second"
    by (simp add: A_def go_rem_def algebra_simps)
  finally show ?thesis
    by (simp add: Parse_RFC3339_def off_def)
qed


section \<open>Durations in hours and whole days: properties\<close>

text \<open>The rounding \<open>float64\<close> and the number of whole days
  \<open>int(d.Hours() / 24)\<close> of a duration \<open>d\<close>.\<close>

lemma pow2_powi: "pow2 e = 2 powi e"
  by (simp add: pow2_def power_int_def inverse_eq_divide power_one_over)

lemma pow2_pos: "0 < pow2 e"
  by (simp add: pow2_powi)

lemma pow2_add: "pow2 (a + b) = pow2 a * pow2 b"
  by (simp add: pow2_powi power_int_add)

lemma pow2_nat: "0 \<le> e \<Longrightarrow> pow2 e = of_int (2 ^ nat e)"
  by (simp add: pow2_def)

lemma pow2_mono: "a \<le> b \<Longrightarrow> pow2 a \<le> pow2 b"
  by (simp add: pow2_powi power_int_increasing)

lemma pow2_strict_mono: "a < b \<Longrightarrow> pow2 a < pow2 b"
  by (simp add: pow2_powi power_int_strict_increasing)

lemma roundEven_err: "\<bar>of_int (roundEven x) - x\<bar> \<le> 1 / 2"
proof -
  define f where "f = \<lfloor>x\<rfloor>"
  define r where "r = x - of_int f"
  have r: "0 \<le> r" "r < 1"
    unfolding r_def f_def by linarith+
  have x: "x = of_int f + r" by (simp add: r_def)
  have "roundEven x = (if r < 1 / 2 then f else if r > 1 / 2 then f + 1
      else if even f then f else f + 1)"
    by (simp add: roundEven_def Let_def f_def r_def)
  then show ?thesis
    unfolding x using r by (auto simp: abs_if)
qed

lemma roundEven_ge: "of_int K \<le> x \<Longrightarrow> K \<le> roundEven x"
proof -
  assume "of_int K \<le> x"
  then have "K \<le> \<lfloor>x\<rfloor>" by (simp add: le_floor_iff)
  then show ?thesis by (auto simp: roundEven_def Let_def)
qed

lemma roundEven_le: "x \<le> of_int K \<Longrightarrow> roundEven x \<le> K"
proof -
  assume a: "x \<le> of_int K"
  show ?thesis
  proof (cases "x = of_int K")
    case True
    then show ?thesis by (simp add: roundEven_def)
  next
    case False
    with a have "x < of_int K" by simp
    then have "\<lfloor>x\<rfloor> < K" by (simp add: floor_less_iff)
    then show ?thesis by (auto simp: roundEven_def Let_def)
  qed
qed

lemma roundEven_of_int: "roundEven (of_int k) = k"
  by (simp add: roundEven_def)

lemma roundEven_minus: "roundEven (- x) = - roundEven x"
proof (cases "x \<in> \<int>")
  case True
  then obtain k where "x = of_int k" by (auto elim: Ints_cases)
  then show ?thesis
    using roundEven_of_int [of "- k"] roundEven_of_int [of k] by simp
next
  case False
  define f where "f = \<lfloor>x\<rfloor>"
  define r where "r = x - of_int f"
  have ne: "x \<noteq> of_int f"
    using False Ints_of_int by metis
  have "of_int f \<le> x" "x < of_int f + 1"
    unfolding f_def by linarith+
  then have r: "0 < r" "r < 1"
    using ne unfolding r_def by linarith+
  have fm: "\<lfloor>- x\<rfloor> = - f - 1"
    using False ne by (simp add: f_def floor_minus ceiling_altdef)
  have a: "roundEven x = (if r < 1 / 2 then f else if r > 1 / 2 then f + 1
      else if even f then f else f + 1)"
    by (simp add: roundEven_def Let_def f_def r_def)
  have "- x - of_int (- f - 1) = 1 - r"
    by (simp add: r_def)
  then have b: "roundEven (- x) = (if 1 - r < 1 / 2 then - f - 1 else if 1 - r > 1 / 2 then - f
      else if even (- f - 1) then - f - 1 else - f)"
    by (simp add: roundEven_def Let_def fm)
  show ?thesis
    unfolding a b using r by auto
qed


lemma ilog2_bounds:
  assumes "x \<noteq> 0"
  shows "pow2 (ilog2 x) \<le> \<bar>x\<bar> \<and> \<bar>x\<bar> < pow2 (ilog2 x + 1)"
proof -
  obtain p q where pq: "quotient_of x = (p, q)" by (cases "quotient_of x")
  have q: "0 < q" using quotient_of_denom_pos [OF pq] .
  have x: "x = of_int p / of_int q" using quotient_of_div [OF pq] .
  have p: "p \<noteq> 0" using assms x by auto
  define bp where "bp = bitlen \<bar>p\<bar>"
  define bq where "bq = bitlen q"
  have ap: "0 < \<bar>p\<bar>" using p by simp
  have bpb: "2 ^ nat (bp - 1) \<le> \<bar>p\<bar>" "\<bar>p\<bar> < 2 ^ nat bp"
    using bitlen_bounds [OF ap] by (simp_all add: bp_def)
  have bqb: "2 ^ nat (bq - 1) \<le> q" "q < 2 ^ nat bq"
    using bitlen_bounds [OF q] by (simp_all add: bq_def)
  have bp1: "1 \<le> bp" and bq1: "1 \<le> bq"
    using ap q bitlen_nonneg [of "\<bar>p\<bar>"] bitlen_nonneg [of q]
      bitlen_eq_zero_iff [of "\<bar>p\<bar>"] bitlen_eq_zero_iff [of q]
    unfolding bp_def bq_def by linarith+
  have P: "pow2 (bp - 1) \<le> of_int \<bar>p\<bar>" "of_int \<bar>p\<bar> < pow2 bp"
  proof -
    have "of_int (2 ^ nat (bp - 1)) \<le> (of_int \<bar>p\<bar> :: rat)"
      using bpb(1) by (simp only: of_int_le_iff)
    then show "pow2 (bp - 1) \<le> of_int \<bar>p\<bar>"
      using bp1 by (simp add: pow2_nat)
    have "(of_int \<bar>p\<bar> :: rat) < of_int (2 ^ nat bp)"
      using bpb(2) by (simp only: of_int_less_iff)
    then show "of_int \<bar>p\<bar> < pow2 bp"
      using bp1 by (simp add: pow2_nat)
  qed
  have Q: "pow2 (bq - 1) \<le> of_int q" "of_int q < pow2 bq"
  proof -
    have "of_int (2 ^ nat (bq - 1)) \<le> (of_int q :: rat)"
      using bqb(1) by (simp only: of_int_le_iff)
    then show "pow2 (bq - 1) \<le> of_int q"
      using bq1 by (simp add: pow2_nat)
    have "(of_int q :: rat) < of_int (2 ^ nat bq)"
      using bqb(2) by (simp only: of_int_less_iff)
    then show "of_int q < pow2 bq"
      using bq1 by (simp add: pow2_nat)
  qed
  define e where "e = bp - bq"
  have ax: "\<bar>x\<bar> = of_int \<bar>p\<bar> / of_int q"
    using q by (simp add: x)
  have qpos: "(0 :: rat) < of_int q" using q by simp
  have lo: "pow2 (e - 1) < \<bar>x\<bar>"
  proof -
    have "pow2 (e - 1) * of_int q < pow2 (e - 1) * pow2 bq"
      using Q(2) pow2_pos [of "e - 1"] by simp
    also have "\<dots> = pow2 (bp - 1)"
      by (simp add: pow2_add [symmetric] e_def)
    also have "\<dots> \<le> of_int \<bar>p\<bar>" by (rule P(1))
    finally show ?thesis
      unfolding ax using qpos by (simp add: pos_less_divide_eq)
  qed
  have hi: "\<bar>x\<bar> < pow2 (e + 1)"
  proof -
    have "of_int \<bar>p\<bar> < pow2 bp" by (rule P(2))
    also have "\<dots> = pow2 (e + 1) * pow2 (bq - 1)"
      by (simp add: pow2_add [symmetric] e_def)
    also have "\<dots> \<le> pow2 (e + 1) * of_int q"
      using Q(1) pow2_pos [of "e + 1"] by simp
    finally show ?thesis
      unfolding ax using qpos by (simp add: pos_divide_less_eq)
  qed
  have il: "ilog2 x = (if \<bar>x\<bar> < pow2 e then e - 1 else e)"
    by (simp add: ilog2_def pq Let_def e_def bp_def bq_def)
  show ?thesis
  proof (cases "\<bar>x\<bar> < pow2 e")
    case True
    then show ?thesis using lo by (simp add: il)
  next
    case False
    then show ?thesis using hi by (simp add: il)
  qed
qed


lemma float64_exponent:
  assumes "x \<noteq> 0" "\<bar>x\<bar> < 2 ^ 53"
  shows "ilog2 x - 52 \<le> 0"
proof (rule ccontr)
  assume "\<not> ilog2 x - 52 \<le> 0"
  then have "53 \<le> ilog2 x" by simp
  then have "pow2 53 \<le> pow2 (ilog2 x)" by (rule pow2_mono)
  also have "\<dots> \<le> \<bar>x\<bar>" using ilog2_bounds [OF assms(1)] by simp
  finally show False using assms(2) by (simp add: pow2_def)
qed

text \<open>For \<open>|x| < 2\<^sup>5\<^sup>3\<close> the rounding is \<open>roundEven (x * P) / P\<close> for a positive
  integer \<open>P\<close>.\<close>

lemma float64_scaled:
  assumes "x \<noteq> 0" "\<bar>x\<bar> < 2 ^ 53"
  shows "\<exists>P::int. 0 < P \<and> float64 x = of_int (roundEven (x * of_int P)) / of_int P"
proof -
  define e where "e = ilog2 x - 52"
  define P :: int where "P = 2 ^ nat (- e)"
  have e: "e \<le> 0" unfolding e_def by (rule float64_exponent [OF assms])
  have P: "0 < P" by (simp add: P_def)
  have pe: "pow2 e = 1 / of_int P"
  proof (cases "e = 0")
    case True
    then show ?thesis by (simp add: pow2_def P_def)
  next
    case False
    then show ?thesis using e by (simp add: pow2_def P_def)
  qed
  have "float64 x = of_int (roundEven (x / pow2 e)) * pow2 e"
    using assms(1) by (simp add: float64_def Let_def e_def)
  then have "float64 x = of_int (roundEven (x * of_int P)) / of_int P"
    by (simp add: pe)
  with P show ?thesis by blast
qed

lemma float64_of_int:
  assumes "\<bar>k\<bar> < 2 ^ 53"
  shows "float64 (of_int k) = of_int k"
proof (cases "k = 0")
  case True
  then show ?thesis by (simp add: float64_def)
next
  case False
  have a: "(of_int k :: rat) \<noteq> 0" using False by simp
  have "\<bar>of_int k :: rat\<bar> = of_int \<bar>k\<bar>" by simp
  also have "\<dots> < of_int (2 ^ 53)" using assms by (simp only: of_int_less_iff)
  finally have b: "\<bar>of_int k :: rat\<bar> < 2 ^ 53" by simp
  from float64_scaled [OF a b] obtain P :: int where P: "0 < P"
    and f: "float64 (of_int k) = of_int (roundEven (of_int k * of_int P)) / of_int P"
    by blast
  have "roundEven (of_int k * of_int P) = k * P"
    using roundEven_of_int [of "k * P"] by simp
  then show ?thesis
    using P by (simp add: f)
qed

lemma float64_ge_int:
  assumes "of_int K \<le> x" "\<bar>x\<bar> < 2 ^ 53"
  shows "of_int K \<le> float64 x"
proof (cases "x = 0")
  case True
  then show ?thesis using assms(1) by (simp add: float64_def)
next
  case False
  from float64_scaled [OF False assms(2)] obtain P :: int where P: "0 < P"
    and f: "float64 x = of_int (roundEven (x * of_int P)) / of_int P"
    by blast
  have "of_int (K * P) \<le> x * of_int P"
    using assms(1) P by simp
  then have "K * P \<le> roundEven (x * of_int P)" by (rule roundEven_ge)
  then have "(of_int (K * P) :: rat) \<le> of_int (roundEven (x * of_int P))"
    by (simp only: of_int_le_iff)
  then show ?thesis
    using P by (simp add: f pos_le_divide_eq)
qed

lemma float64_le_int:
  assumes "x \<le> of_int K" "\<bar>x\<bar> < 2 ^ 53"
  shows "float64 x \<le> of_int K"
proof (cases "x = 0")
  case True
  then show ?thesis using assms(1) by (simp add: float64_def)
next
  case False
  from float64_scaled [OF False assms(2)] obtain P :: int where P: "0 < P"
    and f: "float64 x = of_int (roundEven (x * of_int P)) / of_int P"
    by blast
  have "x * of_int P \<le> of_int (K * P)"
    using assms(1) P by simp
  then have "roundEven (x * of_int P) \<le> K * P" by (rule roundEven_le)
  then have "(of_int (roundEven (x * of_int P)) :: rat) \<le> of_int (K * P)"
    by (simp only: of_int_le_iff)
  then show ?thesis
    using P by (simp add: f pos_divide_le_eq)
qed

lemma float64_err: "\<bar>float64 x - x\<bar> \<le> \<bar>x\<bar> / 2 ^ 53"
proof (cases "x = 0")
  case True
  then show ?thesis by (simp add: float64_def)
next
  case False
  define e where "e = ilog2 x - 52"
  define m where "m = x / pow2 e"
  have pe: "0 < pow2 e" by (rule pow2_pos)
  have x: "x = m * pow2 e" using pe by (simp add: m_def)
  have f: "float64 x = of_int (roundEven m) * pow2 e"
    using False by (simp add: float64_def Let_def e_def m_def)
  have "float64 x - x = (of_int (roundEven m) - m) * pow2 e"
    unfolding f using x by (simp add: algebra_simps)
  then have "\<bar>float64 x - x\<bar> = \<bar>of_int (roundEven m) - m\<bar> * pow2 e"
    using pe by (simp add: abs_mult)
  also have "\<dots> \<le> 1 / 2 * pow2 e"
    using roundEven_err [of m] pe by (simp add: mult_right_mono)
  also have "\<dots> = pow2 (ilog2 x) * pow2 (- 53)"
  proof -
    have "pow2 e = pow2 (ilog2 x) * pow2 (- 52)"
      unfolding e_def by (simp add: pow2_add [symmetric])
    then show ?thesis by (simp add: pow2_def)
  qed
  also have "\<dots> \<le> \<bar>x\<bar> * pow2 (- 53)"
    using ilog2_bounds [OF False] pow2_pos [of "- 53"] by (simp add: mult_right_mono)
  finally show ?thesis by (simp add: pow2_def)
qed

lemma float64_nonneg: "0 \<le> x \<Longrightarrow> 0 \<le> float64 x"
proof -
  assume x: "0 \<le> x"
  have p: "0 < pow2 e" for e by (rule pow2_pos)
  have "0 \<le> x / pow2 (ilog2 x - 52)" using x p [of "ilog2 x - 52"] by simp
  then have "of_int 0 \<le> x / pow2 (ilog2 x - 52)" by simp
  then have "0 \<le> roundEven (x / pow2 (ilog2 x - 52))" by (rule roundEven_ge)
  then have "0 \<le> (of_int (roundEven (x / pow2 (ilog2 x - 52))) :: rat)" by simp
  then have "0 \<le> of_int (roundEven (x / pow2 (ilog2 x - 52))) * pow2 (ilog2 x - 52)"
    using p [of "ilog2 x - 52"] by (simp add: zero_le_mult_iff)
  then show ?thesis
    by (simp add: float64_def Let_def)
qed

lemma ilog2_unique:
  assumes "pow2 a \<le> y" "y < pow2 (a + 1)" "pow2 b \<le> y" "y < pow2 (b + 1)"
  shows "a = b"
proof (rule ccontr)
  assume "a \<noteq> b"
  then consider "a + 1 \<le> b" | "b + 1 \<le> a" by linarith
  then show False
  proof cases
    case 1
    then have "pow2 (a + 1) \<le> pow2 b" by (rule pow2_mono)
    with assms show False by linarith
  next
    case 2
    then have "pow2 (b + 1) \<le> pow2 a" by (rule pow2_mono)
    with assms show False by linarith
  qed
qed

lemma float64_minus: "float64 (- x) = - float64 x"
proof (cases "x = 0")
  case True
  then show ?thesis by (simp add: float64_def)
next
  case False
  then have nz: "- x \<noteq> 0" by simp
  have "ilog2 (- x) = ilog2 x"
    using ilog2_bounds [OF False] ilog2_bounds [OF nz]
    by (intro ilog2_unique [of _ "\<bar>x\<bar>"]) simp_all
  then show ?thesis
    using False by (simp add: float64_def Let_def roundEven_minus)
qed


text \<open>The parts of \<open>Hours\<close> for a non-negative duration: whole hours \<open>hr\<close>, and
  the rounded fraction \<open>fq\<close> of an hour.\<close>

lemma Hours_parts:
  assumes "0 \<le> d" "d \<le> 2 ^ 63"
  shows "\<exists>hr fq. Hours d = float64 (of_int hr + fq) \<and> 0 \<le> hr \<and> hr \<le> 2562047
          \<and> 3600000000000 * hr \<le> d \<and> d < 3600000000000 * hr + 3600000000000
          \<and> 0 \<le> fq \<and> fq \<le> 1
          \<and> of_int hr + fq \<le> of_int d / 3600000000000 + 1 / 2 ^ 53"
proof -
  define hr where "hr = d div 3600000000000"
  define ns where "ns = d mod 3600000000000"
  define q :: rat where "q = of_int ns / 3600000000000"
  define fq where "fq = float64 q"
  have hb: "3600000000000 * hr \<le> d" "d < 3600000000000 * hr + 3600000000000"
    unfolding hr_def using div_bounds [of 3600000000000 d] by simp_all
  have d63: "d \<le> 9223372036854775808" using assms(2) by simp
  have hr: "0 \<le> hr" "hr \<le> 2562047"
    using hb assms(1) d63 by linarith+
  have ns: "0 \<le> ns" "ns < 3600000000000"
    by (simp_all add: ns_def)
  have d: "d = 3600000000000 * hr + ns"
    by (simp add: hr_def ns_def)
  have fh: "float64 (of_int hr) = of_int hr"
    by (rule float64_of_int) (use hr in simp)
  have fn: "float64 (of_int ns) = of_int ns"
    by (rule float64_of_int) (use ns in simp)
  have q: "0 \<le> q" "q < 1"
    using ns by (simp_all add: q_def)
  have q53: "\<bar>q\<bar> < 2 ^ 53" using q by simp
  have fq0: "0 \<le> fq" unfolding fq_def using q(1) by (rule float64_nonneg)
  have fq1: "fq \<le> 1"
    using float64_le_int [of q 1] q q53 by (simp add: fq_def)
  have "\<bar>fq - q\<bar> \<le> \<bar>q\<bar> / 2 ^ 53"
    unfolding fq_def by (rule float64_err)
  then have fqe: "fq \<le> q + 1 / 2 ^ 53"
    using q by (simp add: abs_if field_simps split: if_splits) linarith?
  have dq: "of_int d / 3600000000000 = of_int hr + q"
    unfolding q_def by (subst d) (simp add: field_simps)
  have H: "Hours d = float64 (of_int hr + fq)"
    using assms(1)
    by (simp add: Hours_def Let_def Hour_def go_quo_nonneg go_rem_nonneg hr_def [symmetric]
        ns_def [symmetric] fh fn q_def [symmetric] fq_def [symmetric])
  have le: "of_int hr + fq \<le> of_int d / 3600000000000 + 1 / 2 ^ 53"
    unfolding dq using fqe by simp
  show ?thesis
    apply (rule exI [of _ hr], rule exI [of _ fq])
    using H hr hb fq0 fq1 le by blast
qed


lemma Hours_bounds:
  assumes "0 \<le> d" "d \<le> 2 ^ 63"
  shows "0 \<le> Hours d" "Hours d \<le> 2562048"
        "Hours d \<le> of_int d / 3600000000000 + 1 / 2 ^ 53 + 1 / 2 ^ 31"
        "3600000000000 * K \<le> d \<Longrightarrow> of_int K \<le> Hours d"
proof -
  from Hours_parts [OF assms] obtain hr fq where
    H: "Hours d = float64 (of_int hr + fq)" and hr: "0 \<le> hr" "hr \<le> 2562047"
    and hb: "3600000000000 * hr \<le> d" "d < 3600000000000 * hr + 3600000000000"
    and fq: "0 \<le> fq" "fq \<le> 1"
    and le: "of_int hr + fq \<le> of_int d / 3600000000000 + 1 / 2 ^ 53"
    by blast
  define x where "x = of_int hr + fq"
  have hr': "(0 :: rat) \<le> of_int hr" "(of_int hr :: rat) \<le> 2562047"
    using hr by simp_all
  have x: "0 \<le> x" "x \<le> 2562048"
    using hr' fq by (simp_all add: x_def)
  have x53: "\<bar>x\<bar> < 2 ^ 53" using x by simp
  show "0 \<le> Hours d"
    unfolding H x_def [symmetric] using x(1) by (rule float64_nonneg)
  show "Hours d \<le> 2562048"
    unfolding H x_def [symmetric] using float64_le_int [of x 2562048] x x53 by simp
  have "\<bar>float64 x - x\<bar> \<le> \<bar>x\<bar> / 2 ^ 53" by (rule float64_err)
  then have "float64 x \<le> x + x / 2 ^ 53"
    using x(1) by (simp add: abs_if split: if_splits)
  moreover have "x / 2 ^ 53 \<le> 1 / 2 ^ 31"
    using x by simp
  ultimately show "Hours d \<le> of_int d / 3600000000000 + 1 / 2 ^ 53 + 1 / 2 ^ 31"
    unfolding H x_def [symmetric] using le unfolding x_def [symmetric] by linarith
  show "of_int K \<le> Hours d" if "3600000000000 * K \<le> d"
  proof -
    have "K \<le> hr" using that hb by linarith
    then have "(of_int K :: rat) \<le> of_int hr" by simp
    then have "of_int K \<le> x" using fq by (simp add: x_def)
    then show ?thesis
      unfolding H x_def [symmetric] using x53 by (rule float64_ge_int)
  qed
qed

lemma days_lower:
  assumes "0 \<le> d" "d \<le> 2 ^ 63" "86400000000000 * N \<le> d"
  shows "N \<le> go_int (float64 (Hours d / 24))"
proof -
  note hb = Hours_bounds [OF assms(1,2)]
  define z where "z = Hours d / 24"
  have "3600000000000 * (24 * N) \<le> d" using assms(3) by simp
  then have "of_int (24 * N) \<le> Hours d" by (rule hb(4))
  then have zN: "of_int N \<le> z" by (simp add: z_def)
  have z: "0 \<le> z" "z \<le> 106752"
    using hb(1,2) by (simp_all add: z_def)
  have z53: "\<bar>z\<bar> < 2 ^ 53" using z by simp
  have y: "of_int N \<le> float64 z" using zN z53 by (rule float64_ge_int)
  have "0 \<le> float64 z" using z(1) by (rule float64_nonneg)
  then have "go_int (float64 z) = \<lfloor>float64 z\<rfloor>" by (simp add: go_int_def)
  then show ?thesis
    unfolding z_def [symmetric] using y by (simp add: le_floor_iff)
qed

lemma days_upper:
  assumes "0 \<le> d" "d \<le> 2 ^ 63" "d \<le> 86400000000000 * N - 1000000"
  shows "go_int (float64 (Hours d / 24)) < N"
proof -
  note hb = Hours_bounds [OF assms(1,2)]
  define z where "z = Hours d / 24"
  have "(of_int d :: rat) \<le> of_int (86400000000000 * N - 1000000)"
    using assms(3) by (simp only: of_int_le_iff)
  then have "(of_int d :: rat) / 3600000000000 \<le> 24 * of_int N - 1 / 3600000"
    by (simp add: field_simps)
  then have "Hours d \<le> 24 * of_int N - 1 / 3600000 + 1 / 2 ^ 53 + 1 / 2 ^ 31"
    using hb(3) by linarith
  then have zu: "z \<le> of_int N - (1 / 3600000 - 1 / 2 ^ 53 - 1 / 2 ^ 31) / 24"
    by (simp add: z_def field_simps)
  have z: "0 \<le> z" "z \<le> 106752"
    using hb(1,2) by (simp_all add: z_def)
  have "\<bar>float64 z - z\<bar> \<le> \<bar>z\<bar> / 2 ^ 53" by (rule float64_err)
  then have "float64 z \<le> z + z / 2 ^ 53"
    using z(1) by (simp add: abs_if split: if_splits)
  moreover have "z / 2 ^ 53 \<le> 106752 / 2 ^ 53"
    using z by simp
  ultimately have y: "float64 z < of_int N"
    using zu by simp
  have "0 \<le> float64 z" using z(1) by (rule float64_nonneg)
  then have "go_int (float64 z) = \<lfloor>float64 z\<rfloor>" by (simp add: go_int_def)
  then show ?thesis
    unfolding z_def [symmetric] using y by (simp add: floor_less_iff)
qed


text \<open>The computation is odd in the duration: a duration and its opposite give
  opposite numbers of days.\<close>

lemma go_quo_minus: "go_quo (- a) b = - go_quo a b"
  by (simp add: go_quo_def)

lemma go_rem_minus: "go_rem (- a) b = - go_rem a b"
  by (simp add: go_rem_def go_quo_minus)

lemma Hours_minus: "Hours (- d) = - Hours d"
proof -
  have "float64 (- float64 (of_int (go_quo d Hour))
                 + float64 (- (float64 (of_int (go_rem d Hour)) / 3600000000000)))
        = - float64 (float64 (of_int (go_quo d Hour))
                     + float64 (float64 (of_int (go_rem d Hour)) / 3600000000000))"
    unfolding float64_minus
    using float64_minus
      [of "float64 (of_int (go_quo d Hour))
           + float64 (float64 (of_int (go_rem d Hour)) / 3600000000000)"]
    by simp
  then show ?thesis
    by (simp add: Hours_def Let_def go_quo_minus go_rem_minus float64_minus)
qed

lemma go_int_minus: "go_int (- x) = - go_int x"
proof (cases "x = 0")
  case True
  then show ?thesis by (simp add: go_int_def)
next
  case False
  then show ?thesis
    by (auto simp: go_int_def ceiling_def)
qed

lemma days_minus:
  "go_int (float64 (Hours (- d) / 24)) = - go_int (float64 (Hours d / 24))"
proof -
  have "Hours (- d) / 24 = - (Hours d / 24)"
    by (simp add: Hours_minus)
  then show ?thesis
    by (simp only: float64_minus go_int_minus)
qed

lemma days_exact_nonneg:
  assumes "0 \<le> d" "d \<le> 2 ^ 63"
      and "d mod 86400000000000 \<le> 86400000000000 - 1000000"
  shows "go_int (float64 (Hours d / 24)) = d div 86400000000000"
proof -
  define k where "k = d div 86400000000000"
  define r where "r = d mod 86400000000000"
  have d: "d = 86400000000000 * k + r"
    unfolding k_def r_def by simp
  have r: "0 \<le> r" "r \<le> 86400000000000 - 1000000"
    using assms(3) by (simp_all add: r_def)
  have 1: "k \<le> go_int (float64 (Hours d / 24))"
    by (rule days_lower [OF assms(1,2)]) (use d r in \<open>simp add: algebra_simps\<close>)
  have 2: "go_int (float64 (Hours d / 24)) < k + 1"
    by (rule days_upper [OF assms(1,2)]) (use d r in \<open>simp add: algebra_simps\<close>)
  from 1 2 show ?thesis unfolding k_def by linarith
qed

lemma go_quo_neg: "a \<le> 0 \<Longrightarrow> 0 < b \<Longrightarrow> go_quo a b = - ((- a) div b)"
  using go_quo_minus [of "- a" b] go_quo_nonneg [of "- a" b] by simp

lemma days_exact:
  assumes "\<bar>d\<bar> \<le> 2 ^ 63"
      and "\<bar>d\<bar> mod 86400000000000 \<le> 86400000000000 - 1000000"
  shows "go_int (float64 (Hours d / 24)) = go_quo d 86400000000000"
proof (cases "0 \<le> d")
  case True
  then show ?thesis
    using days_exact_nonneg [of d] assms by (simp add: go_quo_nonneg)
next
  case False
  then have n: "0 \<le> - d" "- d \<le> 2 ^ 63" "(- d) mod 86400000000000 \<le> 86400000000000 - 1000000"
    using assms by simp_all
  have "go_int (float64 (Hours d / 24)) = - go_int (float64 (Hours (- d) / 24))"
    using days_minus [of d] by simp
  also have "\<dots> = - ((- d) div 86400000000000)"
    by (simp only: days_exact_nonneg [OF n])
  also have "\<dots> = go_quo d 86400000000000"
    using False by (simp add: go_quo_neg)
  finally show ?thesis .
qed

lemma days_ge:
  assumes "\<bar>d\<bar> \<le> 2 ^ 63" and "86400000000000 * N \<le> d"
  shows "N \<le> go_int (float64 (Hours d / 24))"
proof (cases "0 \<le> d")
  case True
  then show ?thesis
    using days_lower [of d N] assms by simp
next
  case False
  then have n: "0 \<le> - d" "- d \<le> 2 ^ 63"
    using assms by simp_all
  have "go_int (float64 (Hours (- d) / 24)) < - N + 1"
    by (rule days_upper [OF n]) (use assms(2) in \<open>simp add: algebra_simps\<close>)
  moreover have "go_int (float64 (Hours d / 24)) = - go_int (float64 (Hours (- d) / 24))"
    using days_minus [of d] by simp
  ultimately show ?thesis by linarith
qed

lemma Sub_bounds: "\<bar>Sub t u\<bar> \<le> 2 ^ 63"
  unfolding Sub_def Let_def minDuration_def maxDuration_def by auto

lemma Sub_exact: "minDuration \<le> t - u \<Longrightarrow> t - u \<le> maxDuration \<Longrightarrow> Sub t u = t - u"
  by (simp add: Sub_def Let_def)

section \<open>Staleness classifier: properties\<close>

text \<open>
  Claim C4, as stated (stale if and only if \<open>\<lfloor>(now - t) / 24h\<rfloor> \<ge> N\<close>), fails on
  two inputs. With the last activity one nanosecond short of 171 days in the past,
  the quotient \<open>Hours() / 24\<close> rounds to 171 in \<open>float64\<close>: the pull request is
  stale for \<open>N = 171\<close> although the floor is 170. With the last activity one hour in
  the future, the conversion to \<open>int\<close> truncates \<open>-1/24\<close> to 0: the pull request
  is stale for \<open>N = 0\<close> although the floor is \<open>-1\<close>.
\<close>

theorem C4_rounding_counterexample:
  "isStale (171 * (24 * Hour) - 1) 0 171
   \<and> \<not> (171 * (24 * Hour) - 1 - 0) div (24 * Hour) \<ge> (171 :: int)
   \<and> isStale 0 Hour 0
   \<and> \<not> (0 - Hour) div (24 * Hour) \<ge> (0 :: int)"
  by code_simp

text \<open>
  Claim C4, amended. Let \<open>d\<close> be \<open>time.Since(t)\<close>, the difference \<open>now - t\<close>
  (saturated to the range of a \<open>Duration\<close>). An activity at least \<open>N\<close> whole days
  in the past is stale. When \<open>|d|\<close> is not within the last millisecond of a whole
  day, the number of days computed is the quotient of \<open>d\<close> by 24 hours truncated
  towards zero, and then, for \<open>d \<ge> 0\<close> or \<open>N \<ge> 1\<close>, the pull request is stale if
  and only if \<open>\<lfloor>d / 24h\<rfloor> \<ge> N\<close>. In particular an activity exactly \<open>N * 24h\<close> in
  the past is stale, and for \<open>N \<ge> 1\<close> one \<open>N * 24h - 1ms\<close> in the past is not.
\<close>

theorem C4_staleness:
  fixes now t N :: int
  defines "d \<equiv> Since now t"
  shows "(N * (24 * Hour) \<le> d \<longrightarrow> isStale now t N)
       \<and> (\<bar>d\<bar> mod (24 * Hour) \<le> 24 * Hour - Millisecond \<longrightarrow>
            daysWithoutActivity now t = go_quo d (24 * Hour)
            \<and> (0 \<le> d \<or> 1 \<le> N \<longrightarrow> (isStale now t N \<longleftrightarrow> d div (24 * Hour) \<ge> N)))
       \<and> (0 \<le> N \<and> N * (24 * Hour) \<le> maxDuration \<longrightarrow> isStale now (now - N * (24 * Hour)) N)
       \<and> (1 \<le> N \<and> N * (24 * Hour) \<le> maxDuration \<longrightarrow>
            \<not> isStale now (now - (N * (24 * Hour) - Millisecond)) N)"
proof -
  have day: "24 * Hour = 86400000000000" by (simp add: Hour_def)
  have b: "\<bar>d\<bar> \<le> 2 ^ 63" unfolding d_def Since_def by (rule Sub_bounds)
  have D: "daysWithoutActivity now t = go_int (float64 (Hours d / 24))"
    by (simp add: daysWithoutActivity_def d_def)
  have 1: "isStale now t N" if "N * (24 * Hour) \<le> d"
  proof -
    have "86400000000000 * N \<le> d" using that by (simp add: day)
    then show ?thesis
      unfolding isStale_def D by (rule days_ge [OF b])
  qed
  have 2: "daysWithoutActivity now t = go_quo d (24 * Hour)"
    if "\<bar>d\<bar> mod (24 * Hour) \<le> 24 * Hour - Millisecond"
    unfolding D day
    by (rule days_exact [OF b]) (use that in \<open>simp add: day Millisecond_def\<close>)
  have 3: "isStale now t N \<longleftrightarrow> d div (24 * Hour) \<ge> N"
    if m: "\<bar>d\<bar> mod (24 * Hour) \<le> 24 * Hour - Millisecond" and s: "0 \<le> d \<or> 1 \<le> N"
  proof (cases "0 \<le> d")
    case True
    then show ?thesis
      unfolding isStale_def 2 [OF m] day by (simp add: go_quo_nonneg)
  next
    case False
    then have N: "1 \<le> N" using s by simp
    have "go_quo d (24 * Hour) \<le> 0"
      unfolding day using False by (simp add: go_quo_neg)
    moreover have "d div (24 * Hour) < 0"
      unfolding day using False by (simp add: div_neg_pos_less0)
    ultimately show ?thesis
      unfolding isStale_def 2 [OF m] using N by linarith
  qed
  have 4: "isStale now (now - N * (24 * Hour)) N"
    if "0 \<le> N \<and> N * (24 * Hour) \<le> maxDuration"
  proof -
    have "Sub now (now - N * (24 * Hour)) = N * (24 * Hour)"
      using that by (intro Sub_exact [THEN trans]) (simp_all add: minDuration_def day)
    then have "86400000000000 * N \<le> Since now (now - N * (24 * Hour))"
      by (simp add: Since_def day)
    moreover have "\<bar>Since now (now - N * (24 * Hour))\<bar> \<le> 2 ^ 63"
      unfolding Since_def by (rule Sub_bounds)
    ultimately show ?thesis
      unfolding isStale_def daysWithoutActivity_def
      by (intro days_ge)
  qed
  have 5: "\<not> isStale now (now - (N * (24 * Hour) - Millisecond)) N"
    if "1 \<le> N \<and> N * (24 * Hour) \<le> maxDuration"
  proof -
    define e where "e = N * 86400000000000 - 1000000"
    have e: "0 \<le> e" "e \<le> 2 ^ 63" "e \<le> 86400000000000 * N - 1000000"
      using that by (simp_all add: e_def day maxDuration_def)
    have "e \<le> maxDuration"
      using that by (simp add: e_def day maxDuration_def)
    then have "Sub now (now - e) = e"
      using e(1) by (intro Sub_exact [THEN trans]) (simp_all add: minDuration_def)
    then have "Since now (now - (N * (24 * Hour) - Millisecond)) = e"
      by (simp add: Since_def day Millisecond_def e_def)
    then show ?thesis
      unfolding isStale_def daysWithoutActivity_def
      using days_upper [OF e] by simp
  qed
  from 1 2 3 4 5 show ?thesis by blast
qed

text \<open>The theorem at the scenario: the clock reads 24 November 2023 22:13:20 UTC,
  the last activity is ten days earlier, the threshold is 5 days.\<close>

theorem C4_staleness_witness:
  "isStale 63836460800000000000 63835596800000000000 5
   \<and> daysWithoutActivity 63836460800000000000 63835596800000000000 = 10
   \<and> isStale 63836460800000000000 (63836460800000000000 - 5 * (24 * Hour)) 5
   \<and> \<not> isStale 63836460800000000000 (63836460800000000000 - (5 * (24 * Hour) - Millisecond)) 5"
proof -
  have s: "Since 63836460800000000000 63835596800000000000 = 864000000000000"
    by (simp add: Since_def Sub_def Let_def minDuration_def maxDuration_def)
  show ?thesis
    using C4_staleness [where N = 5 and now = 63836460800000000000
        and t = 63835596800000000000]
    unfolding s
    by (simp add: Hour_def Millisecond_def maxDuration_def go_quo_def)
qed


section \<open>Activity resolver: properties\<close>

text \<open>The variable \<open>last\<close> of \<open>GetLastActivity\<close> when the loop over the comments
  has ended.\<close>

definition lastActivity :: "PullRequest \<Rightarrow> Comment list \<Rightarrow> Time" where
  "lastActivity pr comments =
     GetLastActivity_loop
       (if IsZero (UnixMilli (UpdatedDate pr)) then UnixMilli (CreatedDate pr)
        else UnixMilli (UpdatedDate pr))
       comments"

lemma GetLastActivity_lastActivity:
  "GetLastActivity loc pr cs =
     (if UpdatedDate pr = 0 \<and> CreatedDate pr = 0 then ''''
      else if IsZero (lastActivity pr cs) then ''''
      else FormatRFC3339 loc (lastActivity pr cs))"
  by (simp add: GetLastActivity_def lastActivity_def Let_def)

lemma GetLastActivity_loop_snoc:
  "GetLastActivity_loop l (cs @ [c]) =
     (if After (UnixMilli (CommentUpdatedDate c)) (GetLastActivity_loop l cs)
      then UnixMilli (CommentUpdatedDate c) else GetLastActivity_loop l cs)"
  by (induction cs arbitrary: l) (simp_all add: Let_def)

lemma lastActivity_snoc:
  "lastActivity pr (cs @ [c]) =
     (if lastActivity pr cs < UnixMilli (CommentUpdatedDate c)
      then UnixMilli (CommentUpdatedDate c) else lastActivity pr cs)"
  by (simp add: lastActivity_def GetLastActivity_loop_snoc After_def)

lemma GetLastActivity_loop_ge: "l \<le> GetLastActivity_loop l cs"
proof (induction cs arbitrary: l)
  case Nil
  then show ?case by simp
next
  case (Cons c cs)
  show ?case
    using Cons.IH [of l] Cons.IH [of "UnixMilli (CommentUpdatedDate c)"]
    by (simp add: Let_def After_def)
qed

lemma GetLastActivity_loop_less:
  "l < b \<Longrightarrow> \<forall>c \<in> set cs. UnixMilli (CommentUpdatedDate c) < b \<Longrightarrow>
   GetLastActivity_loop l cs < b"
  by (induction cs arbitrary: l) (simp_all add: Let_def)

lemma UnixMilli_eq: "UnixMilli ms = ms * 1000000 + 62135596800000000000"
  by (simp add: UnixMilli_def Unix_def go_rem_def Second_def unixToInternal_def algebra_simps)


lemma FormatRFC3339_cong:
  "t div Second = t' div Second \<Longrightarrow> FormatRFC3339 loc t = FormatRFC3339 loc t'"
  by (simp add: FormatRFC3339_def unixSec_def)

lemma yearOf_range:
  assumes "62135596800000000000 \<le> t" "t < 315537811200000000000"
      and "\<bar>loc (unixSec t)\<bar> < 86400"
  shows "0 \<le> yearOf loc t \<and> yearOf loc t \<le> 9999"
proof -
  define s where "s = t div Second"
  define off where "off = loc (unixSec t)"
  define days where "days = (s + off) div 86400"
  have s: "62135596800 \<le> s" "s < 315537811200"
    using assms(1,2) div_bounds [of Second t] unfolding s_def Second_def by simp_all
  have off: "- 86400 < off" "off < 86400"
    using assms(3) by (simp_all add: off_def)
  have "86400 * days \<le> s + off" "s + off < 86400 * days + 86400"
    using div_bounds [of 86400 "s + off"] by (simp_all add: days_def)
  then have d: "- 366 \<le> days" "days < 3652059"
    using s off by linarith+
  obtain y yd where yd: "yearDay days = (y, yd)"
    by (cases "yearDay days")
  have "yearOf loc t = y"
    using yd by (simp add: yearOf_def date_def Let_def days_def s_def off_def split: prod.splits)
  then show ?thesis
    using yearDay_range [OF yd d] by simp
qed

lemma lastActivity_range:
  assumes "0 \<le> UpdatedDate pr" "UpdatedDate pr < 253402214400000"
      and "\<forall>c \<in> set cs. CommentUpdatedDate c < 253402214400000"
  shows "62135596800000000000 \<le> lastActivity pr cs"
    and "lastActivity pr cs < 315537811200000000000"
proof -
  have z: "\<not> IsZero (UnixMilli (UpdatedDate pr))"
    using assms(1) by (simp add: IsZero_def UnixMilli_eq)
  have l: "lastActivity pr cs = GetLastActivity_loop (UnixMilli (UpdatedDate pr)) cs"
    using z by (simp add: lastActivity_def)
  have "62135596800000000000 \<le> UnixMilli (UpdatedDate pr)"
    using assms(1) by (simp add: UnixMilli_eq)
  then show "62135596800000000000 \<le> lastActivity pr cs"
    unfolding l using GetLastActivity_loop_ge [of "UnixMilli (UpdatedDate pr)" cs] by linarith
  have "UnixMilli (UpdatedDate pr) < 315537811200000000000"
    using assms(2) by (simp add: UnixMilli_eq)
  moreover have "\<forall>c \<in> set cs. UnixMilli (CommentUpdatedDate c) < 315537811200000000000"
    using assms(3) by (simp add: UnixMilli_eq)
  ultimately show "lastActivity pr cs < 315537811200000000000"
    unfolding l by (rule GetLastActivity_loop_less)
qed

text \<open>
  Claim C1: with \<open>updatedAt = 0\<close> and \<open>createdAt\<close> 14 November 2023, the running
  maximum should start from \<open>createdAt\<close>. It starts from \<open>time.UnixMilli(0)\<close>, the
  first instant of 1970, which is not the zero \<open>Time\<close>: without comments the result
  is that instant and not the creation time; with one comment of 13 September 2020,
  older than the creation, the result is the time of the comment.
\<close>

theorem C1_fallback_never_taken:
  "GetLastActivity scenarioUTC (scenarioPR 1 ''t'' 0 1700000000000) []
     = ''1970-01-01T00:00:00Z''
   \<and> GetLastActivity scenarioUTC (scenarioPR 1 ''t'' 0 1700000000000)
       [scenarioComment 1600000000000] = ''2020-09-13T12:26:40Z''
   \<and> FormatRFC3339 scenarioUTC (UnixMilli 1700000000000) = ''2023-11-14T22:13:20Z''"
  by code_simp




text \<open>
  Claim C3, as stated, fails: the result has a resolution of one second. With a
  pull request updated 500 milliseconds after 22:13:20, a comment updated 300
  milliseconds later is later than the resolved value and leaves it as it is.
\<close>

theorem C3_same_second_counterexample:
  "GetLastActivity scenarioUTC (scenarioPR 3 ''t'' 1700000000500 0) []
     = ''2023-11-14T22:13:20Z''
   \<and> Parse_RFC3339 ''2023-11-14T22:13:20Z'' = Inr (UnixMilli 1700000000000)
   \<and> UnixMilli 1700000000000 < UnixMilli (CommentUpdatedDate (scenarioComment 1700000000800))
   \<and> GetLastActivity scenarioUTC (scenarioPR 3 ''t'' 1700000000500 0)
       [scenarioComment 1700000000800] = ''2023-11-14T22:13:20Z''"
  by code_simp

text \<open>
  Claim C3, amended. Take a pull request updated from 1970 on, all timestamps
  earlier than 31 December 9999, and a zone whose offsets are whole minutes, less
  than a day. If the resolved value \<open>v\<close> is not empty it parses to a time \<open>tv\<close>, and
  appending a comment updated at least one second after \<open>tv\<close> gives a value that
  parses to a time strictly later than \<open>tv\<close>, while appending a comment updated
  earlier than one second after \<open>tv\<close> (earlier than \<open>tv\<close>, at \<open>tv\<close>, or later by less
  than a second) gives \<open>v\<close> again.
\<close>

theorem C3_monotonic:
  assumes u: "0 \<le> UpdatedDate pr" "UpdatedDate pr < 253402214400000"
      and cs: "\<forall>c \<in> set cs. CommentUpdatedDate c < 253402214400000"
      and c: "CommentUpdatedDate c < 253402214400000"
      and zone: "\<forall>u. 60 dvd loc u \<and> \<bar>loc u\<bar> < 86400"
      and v: "GetLastActivity loc pr cs \<noteq> ''''"
  shows "\<exists>tv. Parse_RFC3339 (GetLastActivity loc pr cs) = Inr tv
           \<and> (UnixMilli (CommentUpdatedDate c) < tv + Second \<longrightarrow>
                GetLastActivity loc pr (cs @ [c]) = GetLastActivity loc pr cs)
           \<and> (tv + Second \<le> UnixMilli (CommentUpdatedDate c) \<longrightarrow>
                (\<exists>tv'. Parse_RFC3339 (GetLastActivity loc pr (cs @ [c])) = Inr tv'
                       \<and> tv < tv'))"
proof -
  define L where "L = lastActivity pr cs"
  define ct where "ct = UnixMilli (CommentUpdatedDate c)"
  define tv where "tv = L div Second * Second"
  note r = lastActivity_range [OF u cs, folded L_def]
  have nz: "\<not> (UpdatedDate pr = 0 \<and> CreatedDate pr = 0)"
    using v by (auto simp: GetLastActivity_def)
  have off: "\<bar>loc x\<bar> < 86400" "go_rem (loc x) 60 = 0" for x
    using zone by (simp_all add: go_rem_zero_iff)
  have parse: "Parse_RFC3339 (FormatRFC3339 loc t) = Inr (t div Second * Second)"
    if "62135596800000000000 \<le> t" "t < 315537811200000000000" for t
  proof -
    have y: "0 \<le> yearOf loc t" "yearOf loc t \<le> 9999"
      using yearOf_range [of t loc, OF that off(1)] by simp_all
    show ?thesis
      by (simp only: Parse_Format [OF y off(1)] off(2)) simp
  qed
  have G: "GetLastActivity loc pr cs = FormatRFC3339 loc L"
    using nz r(1) unfolding L_def by (auto simp: GetLastActivity_lastActivity IsZero_def)
  have L': "lastActivity pr (cs @ [c]) = (if L < ct then ct else L)"
    by (simp add: lastActivity_snoc L_def ct_def)
  have pos: "0 < (if L < ct then ct else L)"
    using r(1) by auto
  have G': "GetLastActivity loc pr (cs @ [c]) = FormatRFC3339 loc (if L < ct then ct else L)"
    using nz pos unfolding GetLastActivity_lastActivity L' by (auto simp: IsZero_def)
  have tvb: "tv \<le> L" "L < tv + Second"
    using div_bounds [of Second L] by (simp_all add: tv_def Second_def)
  have 1: "Parse_RFC3339 (GetLastActivity loc pr cs) = Inr tv"
    unfolding G tv_def by (rule parse [OF r])
  have 2: "GetLastActivity loc pr (cs @ [c]) = GetLastActivity loc pr cs" if "ct < tv + Second"
  proof (cases "L < ct")
    case False
    then show ?thesis by (simp add: G G')
  next
    case True
    define q where "q = L div Second"
    define m where "m = ct - Second * q"
    have tq: "tv = Second * q"
      by (simp add: tv_def q_def mult.commute)
    have m: "0 \<le> m" "m < Second"
      using True that tvb unfolding m_def tq by linarith+
    have "(Second * q + m) div Second = q"
      by (rule div_unique_int [OF m])
    moreover have "Second * q + m = ct"
      by (simp add: m_def)
    ultimately have "ct div Second = L div Second"
      unfolding q_def by simp
    then have "FormatRFC3339 loc ct = FormatRFC3339 loc L"
      by (rule FormatRFC3339_cong)
    then show ?thesis
      using True by (simp add: G G')
  qed
  have 3: "\<exists>tv'. Parse_RFC3339 (GetLastActivity loc pr (cs @ [c])) = Inr tv' \<and> tv < tv'"
    if "tv + Second \<le> ct"
  proof -
    have lt: "L < ct" using that tvb by linarith
    have ctr: "62135596800000000000 \<le> ct" "ct < 315537811200000000000"
      using lt r(1) c by (simp_all add: ct_def UnixMilli_eq)
    have p: "Parse_RFC3339 (GetLastActivity loc pr (cs @ [c])) = Inr (ct div Second * Second)"
      using lt parse [OF ctr] by (simp add: G')
    define tc where "tc = Second * (ct div Second)"
    have "0 < Second" by (simp add: Second_def)
    then have "ct < tc + Second"
      unfolding tc_def using div_bounds [of Second ct] by blast
    then have "tv < tc"
      using that by linarith
    then have "tv < ct div Second * Second"
      by (simp add: tc_def mult.commute)
    with p show ?thesis by blast
  qed
  from 1 2 3 show ?thesis
    unfolding ct_def by blast
qed

text \<open>The theorem at a pull request updated on 14 November 2023 at 22:13:20.5 UTC,
  for a comment of 22:13:20.8 and for a comment of 22:13:21.\<close>

theorem C3_monotonic_witness:
  "GetLastActivity scenarioUTC (scenarioPR 3 ''t'' 1700000000500 0)
       ([] @ [scenarioComment 1700000000800])
     = GetLastActivity scenarioUTC (scenarioPR 3 ''t'' 1700000000500 0) []
   \<and> (\<exists>tv'. Parse_RFC3339 (GetLastActivity scenarioUTC (scenarioPR 3 ''t'' 1700000000500 0)
               ([] @ [scenarioComment 1700000001000])) = Inr tv'
            \<and> UnixMilli 1700000000000 < tv')"
proof -
  let ?pr = "scenarioPR 3 ''t'' 1700000000500 0"
  have g: "GetLastActivity scenarioUTC ?pr [] = ''2023-11-14T22:13:20Z''"
    by code_simp
  have p: "Parse_RFC3339 ''2023-11-14T22:13:20Z'' = Inr 63835596800000000000"
    by code_simp
  have u: "UpdatedDate ?pr = 1700000000500"
    by (simp add: scenarioPR_def)
  have c: "CommentUpdatedDate (scenarioComment x) = x" for x
    by (simp add: scenarioComment_def)
  have z: "\<forall>u. 60 dvd scenarioUTC u \<and> \<bar>scenarioUTC u\<bar> < 86400"
    by (simp add: scenarioUTC_def)
  have e: "\<forall>c \<in> set ([] :: Comment list). CommentUpdatedDate c < 253402214400000"
    by simp
  have a: "GetLastActivity scenarioUTC ?pr ([] @ [scenarioComment 1700000000800])
             = GetLastActivity scenarioUTC ?pr []"
    using C3_monotonic [of ?pr "[]" "scenarioComment 1700000000800" scenarioUTC, OF _ _ e _ z]
    unfolding g p u c
    by (simp add: UnixMilli_eq Second_def)
  have b: "\<exists>tv'. Parse_RFC3339 (GetLastActivity scenarioUTC ?pr
               ([] @ [scenarioComment 1700000001000])) = Inr tv'
            \<and> UnixMilli 1700000000000 < tv'"
    using C3_monotonic [of ?pr "[]" "scenarioComment 1700000001000" scenarioUTC, OF _ _ e _ z]
    unfolding g p u c
    by (simp add: UnixMilli_eq Second_def)
  from a b show ?thesis by blast
qed

end
